theory Spec2Isabelle
  imports Complex_Main "HOL-Library.Sublist" "HOL-Library.Log_Nat"
begin

section \<open>Numbers and strings\<close>

text \<open>
  The server is JavaScript. The timestamps of the frame analysis are multiples of one
  half, which a double holds exactly, and are modelled as reals. The scene splitter
  subtracts and rounds arbitrary doubles and is modelled with the \<open>number\<close> type below. A
  string is modelled as the sequence of code points that a pattern with the \<open>u\<close> flag
  reads from well-formed text. The engine's Unicode tables (the \<open>\p{L}\<close> and \<open>\p{N}\<close>
  properties and the two case mappings) are not part of the repository; they are a
  parameter \<open>U\<close> of every function that consults them, so each general theorem holds for
  any tables.
\<close>

subsection \<open>Numbers\<close>

text \<open>
  A JavaScript number is an IEEE 754 binary64 value: not a number, an infinity, or a
  finite value. The sign of a zero is not kept; nothing in the scene splitter tells the
  two zeros apart.
\<close>

datatype number = NaN | PosInf | NegInf | Fin real

definition pow2 :: "int \<Rightarrow> real" where
  "pow2 k = (if 0 \<le> k then 2 ^ nat k else 1 / 2 ^ nat (- k))"

text \<open>The exponent \<open>k\<close> with \<open>pow2 k \<le> \<bar>x\<bar>\<close> and \<open>\<bar>x\<bar> < pow2 (k + 1)\<close>, for \<open>x\<close> other than zero.\<close>

definition binade :: "real \<Rightarrow> int" where
  "binade x = (if 1 \<le> \<bar>x\<bar> then bitlen \<lfloor>\<bar>x\<bar>\<rfloor> - 1 else - bitlen (\<lceil>1 / \<bar>x\<bar>\<rceil> - 1))"

text \<open>The nearest integer, a tie going to the even one.\<close>

definition rne :: "real \<Rightarrow> int" where
  "rne y = (let f = \<lfloor>y\<rfloor> in
     if y - of_int f < 1 / 2 then f
     else if 1 / 2 < y - of_int f then f + 1
     else if even f then f else f + 1)"

text \<open>
  Rounding to the nearest value with a significand of 53 bits, ties to even, with
  gradual underflow: below \<open>pow2 (- 1022)\<close> the grid stays \<open>pow2 (- 1074)\<close>. \<open>double x\<close> is the value of
  an operation whose exact result is \<open>x\<close>; a result that rounds to \<open>pow2 1024\<close> or beyond
  overflows.
\<close>

definition fl :: "real \<Rightarrow> real" where
  "fl x = (if x = 0 then 0
           else let q = max (binade x) (- 1022) - 52 in of_int (rne (x / pow2 q)) * pow2 q)"

text \<open>The spacing of the values that \<open>fl\<close> rounds to, around \<open>x\<close>.\<close>

definition grid :: "real \<Rightarrow> real" where
  "grid x = pow2 (max (binade x) (- 1022) - 52)"

definition double :: "real \<Rightarrow> number" where
  "double x = (let y = fl x in
     if pow2 1024 \<le> y then PosInf else if y \<le> - pow2 1024 then NegInf else Fin y)"

text \<open>
  The value that \<open>parseFloat\<close> reads from a decimal numeral, and the value of a decimal
  literal of the source.
\<close>

definition decimal :: "real \<Rightarrow> number" where
  "decimal x = double x"

text \<open>\<open>a - b\<close>\<close>

fun sub :: "number \<Rightarrow> number \<Rightarrow> number" where
  "sub (Fin a) (Fin b) = double (a - b)"
| "sub NaN b = NaN"
| "sub a NaN = NaN"
| "sub PosInf PosInf = NaN"
| "sub NegInf NegInf = NaN"
| "sub PosInf b = PosInf"
| "sub NegInf b = NegInf"
| "sub a PosInf = NegInf"
| "sub a NegInf = PosInf"

text \<open>\<open>a < b\<close> and \<open>a >= b\<close>; both are false when an operand is not a number.\<close>

definition lt :: "number \<Rightarrow> number \<Rightarrow> bool" where
  "lt a b =
     (case (a, b) of
        (Fin x, Fin y) \<Rightarrow> x < y
      | (Fin x, PosInf) \<Rightarrow> True
      | (NegInf, Fin y) \<Rightarrow> True
      | (NegInf, PosInf) \<Rightarrow> True
      | _ \<Rightarrow> False)"

definition ge :: "number \<Rightarrow> number \<Rightarrow> bool" where
  "ge a b \<longleftrightarrow> a \<noteq> NaN \<and> b \<noteq> NaN \<and> \<not> lt a b"

text \<open>The left operand of \<open>||\<close> is taken unless it is zero or not a number.\<close>

definition truthy_number :: "number \<Rightarrow> bool" where
  "truthy_number x = (case x of NaN \<Rightarrow> False | Fin a \<Rightarrow> a \<noteq> 0 | _ \<Rightarrow> True)"

text \<open>\<open>x * 10\<close>, \<open>x / 10\<close> and \<open>Math.round(x)\<close>, which rounds a half upwards and is exact.\<close>

definition mul10 :: "number \<Rightarrow> number" where
  "mul10 x = (case x of Fin a \<Rightarrow> double (a * 10) | _ \<Rightarrow> x)"

definition div10 :: "number \<Rightarrow> number" where
  "div10 x = (case x of Fin a \<Rightarrow> double (a / 10) | _ \<Rightarrow> x)"

definition js_round :: "number \<Rightarrow> number" where
  "js_round x = (case x of Fin a \<Rightarrow> Fin (of_int \<lfloor>a + 1 / 2\<rfloor>) | _ \<Rightarrow> x)"

definition finite_number :: "number \<Rightarrow> bool" where
  "finite_number x = (case x of Fin a \<Rightarrow> True | _ \<Rightarrow> False)"

text \<open>The integer that \<open>Math.round(x * 10)\<close> gives for a finite \<open>x\<close>.\<close>

definition tenths :: "real \<Rightarrow> int" where
  "tenths x = \<lfloor>fl (x * 10) + 1 / 2\<rfloor>"

text \<open>
  A time in seconds as the handler reads it from ffmpeg's output: a double that is not
  negative, and below \<open>pow2 48\<close> seconds.
\<close>

definition seconds :: "number \<Rightarrow> bool" where
  "seconds t = (case t of Fin a \<Rightarrow> fl a = a \<and> 0 \<le> a \<and> a < pow2 48 | _ \<Rightarrow> False)"

subsection \<open>Strings\<close>

type_synonym jsstring = "nat list"

definition cps :: "string \<Rightarrow> jsstring" where
  "cps s = map of_char s"

record unicode =
  letterOrNumber :: "nat \<Rightarrow> bool"
  toLowerCase :: "jsstring \<Rightarrow> jsstring"
  toUpperCase :: "jsstring \<Rightarrow> jsstring"

text \<open>The characters matched by \<open>\s\<close> and removed by \<open>String.prototype.trim\<close>.\<close>

definition isWhiteSpace :: "nat \<Rightarrow> bool" where
  "isWhiteSpace c \<longleftrightarrow>
     c \<in> {0x9, 0xA, 0xB, 0xC, 0xD, 0x20, 0xA0, 0x1680, 0x2028, 0x2029, 0x202F, 0x205F, 0x3000, 0xFEFF}
     \<or> (0x2000 \<le> c \<and> c \<le> 0x200A)"

definition trim :: "jsstring \<Rightarrow> jsstring" where
  "trim str = rev (dropWhile isWhiteSpace (rev (dropWhile isWhiteSpace str)))"

definition ascii_fold :: "nat \<Rightarrow> nat" where
  "ascii_fold c = (if 0x41 \<le> c \<and> c \<le> 0x5A then c + 0x20 else c)"

definition is_digit :: "nat \<Rightarrow> bool" where
  "is_digit c \<longleftrightarrow> 0x30 \<le> c \<and> c \<le> 0x39"

definition is_az :: "nat \<Rightarrow> bool" where
  "is_az c \<longleftrightarrow> 0x61 \<le> ascii_fold c \<and> ascii_fold c \<le> 0x7A"

text \<open>
  The tables on ASCII, where they are known without the engine. They are used only to
  evaluate the functions on concrete ASCII texts.
\<close>

definition ascii :: unicode where
  "ascii = \<lparr> letterOrNumber = (\<lambda>c. is_digit c \<or> is_az c),
             toLowerCase = map ascii_fold,
             toUpperCase = map (\<lambda>c. if 0x61 \<le> c \<and> c \<le> 0x7A then c - 0x20 else c) \<rparr>"



fun find_index :: "('a \<Rightarrow> bool) \<Rightarrow> 'a list \<Rightarrow> nat option" where
  "find_index P [] = None"
| "find_index P (x # xs) = (if P x then Some 0 else map_option Suc (find_index P xs))"

section \<open>Scene splitter: \<open>POST /api/localizer/smart-analyze\<close>\<close>

text \<open>
  The handler reads the \<open>pts_time\<close> values of the scene filter in the order they are
  printed, keeps a value when \<open>time - last >= 0.3\<close> for the last value kept, builds one
  interval per kept cut, merges intervals with \<open>end - start < MIN_DURATION\<close> and rounds the
  bounds to one decimal. Its inputs are the numbers that \<open>parseFloat\<close> read from the
  \<open>pts_time\<close> fields and \<open>totalSeconds\<close>, which is not a number when ffmpeg prints no
  duration. \<open>s_end\<close> is the field \<open>end\<close> of the source.
\<close>

record scene =
  s_start :: number
  s_end :: number

definition MIN_DURATION :: number where
  "MIN_DURATION = Fin 1"

fun coalesce :: "number list \<Rightarrow> number list \<Rightarrow> number list" where
  "coalesce rawSceneTimes [] = rawSceneTimes"
| "coalesce rawSceneTimes (time # rest) =
     coalesce (if ge (sub time (last rawSceneTimes)) (decimal (3 / 10))
               then rawSceneTimes @ [time] else rawSceneTimes) rest"

text \<open>\<open>rawSceneTimes[i + 1] || totalSeconds\<close>: a missing or falsy next cut gives the video's end.\<close>

definition raw_segments :: "number list \<Rightarrow> number \<Rightarrow> scene list" where
  "raw_segments rawSceneTimes totalSeconds =
     map (\<lambda>i. \<lparr> s_start = rawSceneTimes ! i,
               s_end = (if i + 1 < length rawSceneTimes \<and> truthy_number (rawSceneTimes ! (i + 1))
                        then rawSceneTimes ! (i + 1) else totalSeconds) \<rparr>)
         [0 ..< length rawSceneTimes]"

text \<open>The index at which the \<open>for\<close> loop stops: the first interval below the minimum.\<close>

fun short_index :: "scene list \<Rightarrow> nat option" where
  "short_index [] = None"
| "short_index (s # ss) =
     (if lt (sub (s_end s) (s_start s)) MIN_DURATION then Some 0 else map_option Suc (short_index ss))"

definition splice1 :: "nat \<Rightarrow> 'a list \<Rightarrow> 'a list" where
  "splice1 i xs = take i xs @ drop (Suc i) xs"

text \<open>One run of the \<open>for\<close> loop; \<open>None\<close> when it ends with \<open>merged = false\<close>.\<close>

definition merge_pass :: "scene list \<Rightarrow> scene list option" where
  "merge_pass segments =
     (if length segments > 1 then
        (case short_index segments of
           None \<Rightarrow> None
         | Some i \<Rightarrow>
             Some (if i < length segments - 1
                   then splice1 i (segments[i + 1 := (segments ! (i + 1))\<lparr> s_start := s_start (segments ! i) \<rparr>])
                   else splice1 i (segments[i - 1 := (segments ! (i - 1))\<lparr> s_end := s_end (segments ! i) \<rparr>])))
      else None)"

function merge_loop :: "scene list \<Rightarrow> scene list" where
  "merge_loop segments =
     (case merge_pass segments of None \<Rightarrow> segments | Some segments' \<Rightarrow> merge_loop segments')"
  by pat_completeness auto
termination
proof (relation "measure length")
  show "wf (measure length)" by simp
next
  fix segments segments' :: "scene list"
  assume pass: "merge_pass segments = Some segments'"
  have bound: "short_index ss = Some i \<Longrightarrow> i < length ss" for ss i
    by (induction ss arbitrary: i) (auto split: if_splits)
  from pass show "(segments', segments) \<in> measure length"
    by (auto simp: merge_pass_def splice1_def split: if_splits option.splits dest: bound)
qed

text \<open>\<open>Math.round(s.start * 10) / 10\<close>, and the same for the end.\<close>

definition round_scene :: "scene \<Rightarrow> scene" where
  "round_scene s = \<lparr> s_start = div10 (js_round (mul10 (s_start s))),
                     s_end = div10 (js_round (mul10 (s_end s))) \<rparr>"

definition smart_analyze :: "number list \<Rightarrow> number \<Rightarrow> scene list" where
  "smart_analyze ptsTimes totalSeconds =
     map round_scene (merge_loop (raw_segments (coalesce [Fin 0] ptsTimes) totalSeconds))"

text \<open>
  The intervals cover the video: the first starts at 0 and the last ends with the video.
  Every merge keeps that, and every bound is one of the cuts or the video's end.
\<close>

definition chained :: "number \<Rightarrow> scene list \<Rightarrow> bool" where
  "chained totalSeconds segments \<longleftrightarrow>
     segments \<noteq> [] \<and> s_start (hd segments) = Fin 0 \<and> s_end (last segments) = totalSeconds"

definition bounds_in :: "number set \<Rightarrow> scene list \<Rightarrow> bool" where
  "bounds_in S segments \<longleftrightarrow> (\<forall>s \<in> set segments. s_start s \<in> S \<and> s_end s \<in> S)"

section \<open>Segment builder: \<open>POST /api/localizer/analyze\<close>\<close>

subsection \<open>Normalization\<close>

definition in_range :: "nat \<Rightarrow> nat \<Rightarrow> nat \<Rightarrow> bool" where
  "in_range lo hi c \<longleftrightarrow> lo \<le> c \<and> c \<le> hi"

text \<open>\<open>str.replace(/[\u{lo}-\u{hi}]/gu, '')\<close>\<close>

definition remove_range :: "nat \<Rightarrow> nat \<Rightarrow> jsstring \<Rightarrow> jsstring" where
  "remove_range lo hi str = filter (\<lambda>c. \<not> in_range lo hi c) str"


definition normalizedText :: "jsstring \<Rightarrow> jsstring" where
  "normalizedText textContent =
     trim (remove_range 0x1F0A0 0x1F0FF (remove_range 0x1F000 0x1F02F (remove_range 0xFE00 0xFE0F
       (remove_range 0x2700 0x27BF (remove_range 0x2600 0x26FF (remove_range 0x1F300 0x1F9FF textContent))))))"

text \<open>\<open>str.replace(/\s+/g, ' ')\<close>\<close>

function collapse_ws :: "jsstring \<Rightarrow> jsstring" where
  "collapse_ws [] = []"
| "collapse_ws (c # cs) =
     (if isWhiteSpace c then 0x20 # collapse_ws (dropWhile isWhiteSpace cs) else c # collapse_ws cs)"
  by pat_completeness auto
termination
  by (relation "measure length") (auto simp: length_dropWhile_le le_imp_less_Suc)

text \<open>
  \<open>stripForCompare\<close>, \<open>stripForCompare2\<close> and \<open>normalizeForMerge\<close> are the same chain:
  emoji out, everything but letters, numbers and white space out, white space collapsed,
  ends trimmed, lower case.
\<close>

definition stripForCompare :: "unicode \<Rightarrow> jsstring \<Rightarrow> jsstring" where
  "stripForCompare U str =
     toLowerCase U (trim (collapse_ws (filter (\<lambda>c. letterOrNumber U c \<or> isWhiteSpace c)
       (remove_range 0x1F300 0x1F9FF str))))"



subsection \<open>What the vision model returned for a frame\<close>

text \<open>
  The \<open>text\<close> of a detection is absent or falsy, a string, or a truthy value that is not
  a string (on which \<open>.replace\<close> is not a function). An element of \<open>parsed.texts\<close> is
  \<open>null\<close>, another falsy value, a string (the old format), another truthy scalar, or an
  object. The position fields \<open>x\<close>, \<open>y\<close> and \<open>position\<close> are copied through and never
  read by the builder; they are left out, and so is the derived field \<open>duration\<close>.
\<close>

datatype text_field = NoText | Str jsstring | NotAString

datatype detection = Null | Falsy | Plain jsstring | Scalar | Obj text_field

text \<open>
  A frame is \<open>Skipped\<close> when nothing of the state is touched: the request failed, the
  reply held no \<open>{...}\<close>, \<open>JSON.parse\<close> threw, or \<open>parsed.texts\<close> was a truthy value
  without \<open>forEach\<close> and \<open>map\<close>. Otherwise it is \<open>Parsed\<close> with the elements of
  \<open>parsed.texts\<close>, none when the field is absent.
\<close>

datatype frame_reply = Skipped | Parsed "detection list"

record text_entry =
  t_text :: jsstring
  t_start :: real
  t_end :: real
  t_closed :: bool

definition frameInterval :: real where
  "frameInterval = 1 / 2"

definition timestamp_of :: "nat \<Rightarrow> real" where
  "timestamp_of frameNum = (real frameNum - 1) * (1 / 2)"

definition new_text :: "jsstring \<Rightarrow> real \<Rightarrow> text_entry" where
  "new_text normalized timestamp =
     \<lparr> t_text = normalized, t_start = timestamp, t_end = timestamp + frameInterval, t_closed = False \<rparr>"

text \<open>The predicate of \<open>texts.find\<close>: an open entry with the same text.\<close>

definition same_text :: "unicode \<Rightarrow> jsstring \<Rightarrow> text_entry \<Rightarrow> bool" where
  "same_text U normalized x \<longleftrightarrow>
     \<not> t_closed x \<and>
     (t_text x = normalized
      \<or> toLowerCase U (t_text x) = toLowerCase U normalized
      \<or> stripForCompare U (t_text x) = stripForCompare U normalized)"

definition textContent_of :: "detection \<Rightarrow> text_field" where
  "textContent_of t = (case t of Obj f \<Rightarrow> f | Plain s \<Rightarrow> Str s | Scalar \<Rightarrow> NotAString | _ \<Rightarrow> NoText)"

text \<open>The body of \<open>parsed.texts.forEach\<close> from the normalization on.\<close>

definition add_text :: "unicode \<Rightarrow> real \<Rightarrow> text_entry list \<Rightarrow> jsstring \<Rightarrow> text_entry list" where
  "add_text U timestamp texts textContent =
     (let normalized = normalizedText textContent in
      if normalized = [] then texts
      else case find_index (same_text U normalized) texts of
             Some j \<Rightarrow>
               (let existingText = texts ! j; gap = timestamp - t_end existingText in
                if gap \<le> frameInterval
                then texts[j := existingText\<lparr> t_end := timestamp + frameInterval \<rparr>]
                else texts @ [new_text normalized timestamp])
           | None \<Rightarrow> texts @ [new_text normalized timestamp])"

text \<open>
  The \<open>forEach\<close> over the detections. The flag says that a \<open>TypeError\<close> escaped; the
  entries changed before it stay changed.
\<close>

fun detect_all :: "unicode \<Rightarrow> real \<Rightarrow> text_entry list \<Rightarrow> detection list \<Rightarrow> text_entry list \<times> bool" where
  "detect_all U timestamp texts [] = (texts, False)"
| "detect_all U timestamp texts (t # rest) =
     (case t of
        Null \<Rightarrow> detect_all U timestamp texts rest
      | Falsy \<Rightarrow> detect_all U timestamp texts rest
      | _ \<Rightarrow>
        (case textContent_of t of
           NotAString \<Rightarrow> (texts, True)
         | NoText \<Rightarrow> detect_all U timestamp texts rest
         | Str s \<Rightarrow> detect_all U timestamp (add_text U timestamp texts s) rest))"

text \<open>An element of \<open>currentTextsNormalized\<close>.\<close>

definition compare_text :: "unicode \<Rightarrow> detection \<Rightarrow> jsstring" where
  "compare_text U t = (case textContent_of t of Str s \<Rightarrow> stripForCompare U s | _ \<Rightarrow> stripForCompare U [])"

text \<open>The pass that closes the entries whose text is not in the frame.\<close>

definition close_absent :: "unicode \<Rightarrow> real \<Rightarrow> jsstring list \<Rightarrow> text_entry list \<Rightarrow> text_entry list" where
  "close_absent U timestamp currentTextsNormalized texts =
     map (\<lambda>t. if \<not> t_closed t
                   \<and> \<not> (\<exists>ct \<in> set currentTextsNormalized. ct = stripForCompare U (t_text t))
                   \<and> timestamp > t_start t
               then t\<lparr> t_end := timestamp, t_closed := True \<rparr> else t) texts"

text \<open>
  One iteration of the frame loop. Reading \<open>t.text\<close> of a \<open>null\<close> element throws while
  \<open>currentTextsNormalized\<close> is built, after the detections were added and before anything
  is closed.
\<close>

definition analyze_frame :: "unicode \<Rightarrow> text_entry list \<Rightarrow> nat \<times> frame_reply \<Rightarrow> text_entry list" where
  "analyze_frame U texts frame =
     (let timestamp = timestamp_of (fst frame) in
      case snd frame of
        Skipped \<Rightarrow> texts
      | Parsed found \<Rightarrow>
         (case detect_all U timestamp texts found of
            (texts', True) \<Rightarrow> texts'
          | (texts', False) \<Rightarrow>
              if Null \<in> set found then texts'
              else close_absent U timestamp (map (compare_text U) found) texts'))"

text \<open>After the loop the entries still open end with the last frame.\<close>

definition close_open :: "nat \<Rightarrow> text_entry list \<Rightarrow> text_entry list" where
  "close_open lastFrame texts =
     map (\<lambda>t. if \<not> t_closed t then t\<lparr> t_end := (real lastFrame - 1) * (1 / 2) + 1 / 2 \<rparr> else t) texts"

subsection \<open>The filter of brand names, sizes and long-lived texts\<close>

definition BRAND_FILTER :: "jsstring list" where
  "BRAND_FILTER = map cps [''noriks'', ''nike'', ''adidas'', ''puma'', ''under armour'', ''calvin klein'',
     ''tommy hilfiger'', ''hugo boss'', ''lacoste'', ''ralph lauren'', ''armani'', ''diesel'', ''levis'',
     ''gap'', ''zara'', ''h&m'', ''nano'']"

definition SIZE_FILTER :: "jsstring list" where
  "SIZE_FILTER = map cps [''xs'', ''s'', ''m'', ''l'', ''xl'', ''2xl'', ''3xl'', ''4xl'', ''5xl'', ''xxl'', ''xxxl'']"

text \<open>\<open>brand.replace(' ', '')\<close> removes the first space only.\<close>

fun remove_first :: "nat \<Rightarrow> jsstring \<Rightarrow> jsstring" where
  "remove_first c [] = []"
| "remove_first c (d # ds) = (if d = c then ds else d # remove_first c ds)"

text \<open>
  The three patterns carry the \<open>i\<close> flag and no \<open>u\<close> flag, so an ASCII letter of the
  pattern matches that letter in either case and nothing else. The character classes that
  follow one another are disjoint, so the greedy reading below is the only way to match.
\<close>

fun strip_prefix_ci :: "jsstring \<Rightarrow> jsstring \<Rightarrow> jsstring option" where
  "strip_prefix_ci [] str = Some str"
| "strip_prefix_ci (p # ps) [] = None"
| "strip_prefix_ci (p # ps) (c # cs) = (if ascii_fold c = p then strip_prefix_ci ps cs else None)"

definition is_x :: "nat \<Rightarrow> bool" where
  "is_x c \<longleftrightarrow> ascii_fold c = 0x78"

text \<open>\<open>/^noriks\s*\d*x*l$/i\<close>\<close>

definition re_noriks_size :: "jsstring \<Rightarrow> bool" where
  "re_noriks_size str =
     (case strip_prefix_ci (cps ''noriks'') str of
        None \<Rightarrow> False
      | Some r \<Rightarrow> map ascii_fold (dropWhile is_x (dropWhile is_digit (dropWhile isWhiteSpace r))) = cps ''l'')"

text \<open>\<open>/^\d*x*l\s*noriks$/i\<close>\<close>

definition re_size_noriks :: "jsstring \<Rightarrow> bool" where
  "re_size_noriks str =
     (case strip_prefix_ci (cps ''l'') (dropWhile is_x (dropWhile is_digit str)) of
        None \<Rightarrow> False
      | Some r \<Rightarrow> map ascii_fold (dropWhile isWhiteSpace r) = cps ''noriks'')"

definition starts_slogan_word :: "jsstring \<Rightarrow> bool" where
  "starts_slogan_word r \<longleftrightarrow>
     strip_prefix_ci (cps ''shirts'') r \<noteq> None
     \<or> strip_prefix_ci (cps ''done'') r \<noteq> None
     \<or> strip_prefix_ci (cps ''better'') r \<noteq> None"

text \<open>\<open>/^[a-z]+\s+(simple\s+)?(shirts|done|better)/i\<close>\<close>

definition re_brand_slogan :: "jsstring \<Rightarrow> bool" where
  "re_brand_slogan str =
     (let r1 = dropWhile is_az str; r2 = dropWhile isWhiteSpace r1 in
      r1 \<noteq> str \<and> r2 \<noteq> r1 \<and>
      (starts_slogan_word r2
       \<or> (case strip_prefix_ci (cps ''simple'') r2 of
             None \<Rightarrow> False
           | Some r3 \<Rightarrow> (let r4 = dropWhile isWhiteSpace r3 in r4 \<noteq> r3 \<and> starts_slogan_word r4))))"

text \<open>\<open>.length\<close> counts UTF-16 code units: two for a code point above \<open>0xFFFF\<close>.\<close>

definition utf16_length :: "jsstring \<Rightarrow> nat" where
  "utf16_length str = (\<Sum>c \<leftarrow> str. if c > 0xFFFF then 2 else 1)"

text \<open>The tests of the filter on the text alone, in the order of the source.\<close>

definition not_an_overlay :: "unicode \<Rightarrow> jsstring \<Rightarrow> bool" where
  "not_an_overlay U str =
     (let textLower = trim (toLowerCase U str) in
      if \<exists>brand \<in> set BRAND_FILTER. textLower = brand \<or> textLower = remove_first 0x20 brand then True
      else if textLower \<in> set SIZE_FILTER then True
      else if re_noriks_size textLower \<or> re_size_noriks textLower then True
      else if re_brand_slogan textLower then True
      else if utf16_length textLower < 3 then True
      else False)"

text \<open>
  The predicate of \<open>texts.filter\<close>. The last test drops a text that lasts more than 70%
  of the sampled length, \<open>frames.length * 0.5\<close>.
\<close>

definition keep_text :: "unicode \<Rightarrow> nat \<Rightarrow> text_entry \<Rightarrow> bool" where
  "keep_text U frameCount t =
     (let duration = t_end t - t_start t;
          videoLength = real frameCount * (1 / 2) in
      if not_an_overlay U (t_text t) then False
      else if duration > videoLength * (7 / 10) then False
      else True)"

subsection \<open>The final merge of entries with the same text\<close>

definition mergeable :: "unicode \<Rightarrow> text_entry \<Rightarrow> text_entry \<Rightarrow> bool" where
  "mergeable U t m \<longleftrightarrow>
     stripForCompare U (t_text m) = stripForCompare U (t_text t) \<and>
     (let overlaps = (t_start t \<le> t_end m \<and> t_end t \<ge> t_start m);
          gap = t_start t - t_end m;
          isConsecutive = (gap > 0 \<and> gap \<le> 1 / 2)
      in overlaps \<or> isConsecutive)"

fun merge_texts :: "unicode \<Rightarrow> text_entry list \<Rightarrow> text_entry list \<Rightarrow> text_entry list" where
  "merge_texts U mergedTexts [] = mergedTexts"
| "merge_texts U mergedTexts (t # rest) =
     (case find_index (mergeable U t) mergedTexts of
        Some j \<Rightarrow>
          (let existing = mergedTexts ! j in
           merge_texts U (mergedTexts[j := existing\<lparr> t_start := min (t_start existing) (t_start t),
                                                      t_end := max (t_end existing) (t_end t) \<rparr>]) rest)
      | None \<Rightarrow> merge_texts U (mergedTexts @ [t]) rest)"

text \<open>
  The \<open>texts\<close> of the response. A frame is its number, parsed from the file name
  \<open>frame-NNN.jpg\<close>, and what came back for it; the frames are in the order of the sorted
  file names. \<open>Array.prototype.sort\<close> is stable, as \<open>sort_key\<close> is.
\<close>

definition analyze_texts :: "unicode \<Rightarrow> (nat \<times> frame_reply) list \<Rightarrow> text_entry list" where
  "analyze_texts U frames =
     (if frames = [] then []
      else
        let texts = close_open (fst (last frames)) (foldl (analyze_frame U) [] frames);
            filteredTexts = filter (keep_text U (length frames)) texts
        in merge_texts U [] (sort_key t_start filteredTexts))"

subsection \<open>Frames that show one text\<close>

text \<open>
  A frame whose reply holds the single text \<open>s\<close>, and a sampling of \<open>n\<close> frames,
  numbered from 1, every one analysed, of which the frames \<open>a\<close> and \<open>b\<close> show \<open>s\<close>
  and the others show nothing. \<open>extent\<close> reads the text and the time range of an entry.
\<close>

definition sighting :: "jsstring \<Rightarrow> frame_reply" where
  "sighting s = Parsed [Obj (Str s)]"

definition two_sightings :: "jsstring \<Rightarrow> nat \<Rightarrow> nat \<Rightarrow> nat \<Rightarrow> (nat \<times> frame_reply) list" where
  "two_sightings s a b n = map (\<lambda>i. (i, if i = a \<or> i = b then sighting s else Parsed [])) [1 ..< Suc n]"

definition extent :: "text_entry \<Rightarrow> jsstring \<times> real \<times> real" where
  "extent t = (t_text t, t_start t, t_end t)"

text \<open>
  The scenario of the specification: six frames, the text \<open>SALE\<close> in the frames at 0 s,
  0.5 s and 2.5 s, nothing in the three frames between.
\<close>

definition SALE :: jsstring where
  "SALE = cps ''SALE''"

definition scenario_frames :: "(nat \<times> frame_reply) list" where
  "scenario_frames =
     [(1, sighting SALE), (2, sighting SALE), (3, Parsed []), (4, Parsed []), (5, Parsed []), (6, sighting SALE)]"

subsection \<open>Invariants of the entries\<close>


definition timed :: "real \<Rightarrow> text_entry list \<Rightarrow> bool" where
  "timed timestamp texts \<longleftrightarrow>
     (\<forall>t \<in> set texts. t_start t < t_end t \<and> t_start t \<le> timestamp \<and> t_end t \<le> timestamp + frameInterval)"

definition bounded :: "real \<Rightarrow> text_entry list \<Rightarrow> bool" where
  "bounded limit texts \<longleftrightarrow> (\<forall>t \<in> set texts. t_start t < t_end t \<and> t_end t \<le> limit)"

section \<open>Generation jobs: \<open>POST /api/localizer/generate\<close> and \<open>generateAllCountries\<close>\<close>

subsection \<open>The job record\<close>

text \<open>The status strings, capitalised.\<close>

datatype status = Queued | Analyzing | Translating | Generating | Done | Error | Cancelled

datatype failure = MissingData | VideoNotFound | TransportFailure | TypeError | EncodeFailed | NotInProgress

text \<open>
  An output file \<open>uploads/generated/<job id>/<videoName>.mp4\<close> is named by its language.
  Of \<open>namingParts\<close> only the author is read by the handlers modelled here, and of a job's
  \<open>texts\<close> only each entry's \<open>text\<close> decides what is rendered. The quality check that
  follows each encode catches its own exceptions and never touches the fields below.
\<close>

datatype path = OutVideo jsstring

record naming =
  author :: "jsstring option"

record job =
  job_id :: jsstring
  namingParts :: "naming option"
  job_texts :: "jsstring list"
  uppercase :: bool
  countries :: "jsstring list option"
  status :: status
  completed :: nat
  currentLang :: jsstring
  outputs :: "jsstring \<rightharpoonup> path"
  job_cancelled :: bool
  job_error :: "failure option"

subsection \<open>Creating a job\<close>

definition ALL_COUNTRIES :: "jsstring list" where
  "ALL_COUNTRIES = map cps [''HR'', ''CZ'', ''PL'', ''GR'', ''IT'', ''HU'', ''SK'']"

text \<open>\<open>None\<close> is a \<open>countries\<close> field that is absent or not an array.\<close>

definition selectedCountries :: "jsstring list option \<Rightarrow> jsstring list" where
  "selectedCountries countries_in =
     (case countries_in of
        Some cs \<Rightarrow> if length cs > 0 then filter (\<lambda>c. c \<in> set ALL_COUNTRIES) cs else ALL_COUNTRIES
      | None \<Rightarrow> ALL_COUNTRIES)"

record request =
  req_videoClean :: "jsstring option"
  req_texts :: "jsstring list"
  req_countries :: "jsstring list option"
  req_uppercase :: bool
  req_namingParts :: "naming option"

text \<open>The handler up to \<open>localizerJobs.set\<close>; \<open>video_exists\<close> is \<open>fs.existsSync(videoPath)\<close>.\<close>

definition create_job :: "jsstring \<Rightarrow> bool \<Rightarrow> request \<Rightarrow> failure + job" where
  "create_job jobId video_exists req =
     (if req_videoClean req = None \<or> req_videoClean req = Some [] \<or> req_texts req = [] then Inl MissingData
      else if \<not> video_exists then Inl VideoNotFound
      else Inr \<lparr> job_id = jobId, namingParts = req_namingParts req, job_texts = req_texts req,
                 uppercase = req_uppercase req, countries = Some (selectedCountries (req_countries req)),
                 status = Translating, completed = 0, currentLang = [], outputs = Map.empty,
                 job_cancelled = False, job_error = None \<rparr>)"

text \<open>
  A queue entry as \<open>processQueue\<close> reads it from the queue file, and the job record it
  registers for the entry. The record has no \<open>uppercase\<close>, \<open>cancelled\<close> or \<open>currentLang\<close>
  field: they read as \<open>undefined\<close>, which is falsy.
\<close>

datatype queue_status = Pending | Processing | Processed | Failed

record queue_entry =
  q_id :: jsstring
  q_namingParts :: "naming option"
  q_texts :: "jsstring list"
  q_countries :: "jsstring list option"
  q_status :: queue_status

definition genJob :: "bool \<Rightarrow> queue_entry \<Rightarrow> failure + job" where
  "genJob video_exists entry =
     (if \<not> video_exists then Inl VideoNotFound
      else Inr \<lparr> job_id = q_id entry, namingParts = q_namingParts entry, job_texts = q_texts entry,
                 uppercase = False, countries = q_countries entry,
                 status = Translating, completed = 0, currentLang = [], outputs = Map.empty,
                 job_cancelled = False, job_error = None \<rparr>)"

subsection \<open>The parsed translation reply\<close>

datatype json = JNull | JBool bool | JNum real | JStr jsstring | JArr "json list" | JObj "(jsstring \<times> json) list"

fun truthy :: "json \<Rightarrow> bool" where
  "truthy JNull = False"
| "truthy (JBool b) = b"
| "truthy (JNum n) = (n \<noteq> 0)"
| "truthy (JStr s) = (s \<noteq> [])"
| "truthy (JArr xs) = True"
| "truthy (JObj kvs) = True"

text \<open>
  \<open>v?.[key]\<close> for a language code \<open>key\<close>; \<open>None\<close> is \<open>undefined\<close>. \<open>JSON.parse\<close> keeps the
  last of two equal keys. No language code names a property of a string, an array, a
  number or a boolean.
\<close>

definition property :: "json \<Rightarrow> jsstring \<Rightarrow> json option" where
  "property v key = (case v of JObj kvs \<Rightarrow> map_of (rev kvs) key | _ \<Rightarrow> None)"

text \<open>\<open>translations[i]?.[lang]\<close>\<close>

definition translation_entry :: "json list \<Rightarrow> nat \<Rightarrow> jsstring \<Rightarrow> json option" where
  "translation_entry translations i lang =
     (if i < length translations then property (translations ! i) lang else None)"

text \<open>
  The text of entry \<open>i\<close> for one language: \<open>translatedText || t.text\<close>, in upper case when
  the job asks for it. It goes to the subtitle line or, for the rounded style, to the
  overlay image.
\<close>

definition localized_text :: "unicode \<Rightarrow> bool \<Rightarrow> json list \<Rightarrow> nat \<Rightarrow> jsstring \<Rightarrow> jsstring \<Rightarrow> failure + json" where
  "localized_text U upper translations i lang source =
     (let text_used = (case translation_entry translations i lang of
                         Some translatedText \<Rightarrow> if truthy translatedText then translatedText else JStr source
                       | None \<Rightarrow> JStr source)
      in if upper
         then (case text_used of JStr s \<Rightarrow> Inr (JStr (toUpperCase U s)) | _ \<Rightarrow> Inl TypeError)
         else Inr text_used)"

text \<open>\<open>job.texts.forEach\<close> for one language, from entry \<open>i\<close> on.\<close>

fun render_texts :: "unicode \<Rightarrow> bool \<Rightarrow> json list \<Rightarrow> jsstring \<Rightarrow> nat \<Rightarrow> jsstring list \<Rightarrow> failure + json list" where
  "render_texts U upper translations lang i [] = Inr []"
| "render_texts U upper translations lang i (source # rest) =
     (case localized_text U upper translations i lang source of
        Inl e \<Rightarrow> Inl e
      | Inr v \<Rightarrow> (case render_texts U upper translations lang (Suc i) rest of
                   Inl e \<Rightarrow> Inl e
                 | Inr vs \<Rightarrow> Inr (v # vs)))"

subsection \<open>The run of a job\<close>

text \<open>
  What the collaborators do during one run: the translation request fails, or its reply
  is parsed to an array (\<open>None\<close> when it holds no \<open>[...]\<close> or \<open>JSON.parse\<close> throws, which
  leaves \<open>translations = []\<close>); a cancel request is handled just before the check
  numbered \<open>cancel_at\<close> (check 0 follows the translation, check \<open>k + 1\<close> opens the
  iteration of language \<open>k\<close>); the encode of a language exits non-zero.
\<close>

datatype trans_reply = RequestFails | Reply "json list option"

record env =
  reply :: trans_reply
  cancel_at :: "nat option"
  encode_fails :: "jsstring \<Rightarrow> bool"

text \<open>\<open>translations\<close> after the \<open>try\<close> around \<open>JSON.parse\<close>.\<close>

definition parsed_translations :: "json list option \<Rightarrow> json list" where
  "parsed_translations parsed = (case parsed of Some xs \<Rightarrow> xs | None \<Rightarrow> [])"

text \<open>The texts of a language are built without a \<open>TypeError\<close>.\<close>

definition renders :: "unicode \<Rightarrow> job \<Rightarrow> json list \<Rightarrow> jsstring \<Rightarrow> bool" where
  "renders U j translations lang \<longleftrightarrow>
     (case render_texts U (uppercase j) translations lang 0 (job_texts j) of
        Inl err \<Rightarrow> False | Inr rendered \<Rightarrow> True)"

text \<open>\<open>POST /api/localizer/job/:id/cancel\<close>\<close>

definition cancel_job :: "job \<Rightarrow> failure + job" where
  "cancel_job j =
     (if status j \<noteq> Translating \<and> status j \<noteq> Generating then Inl NotInProgress
      else Inr (j\<lparr> job_cancelled := True \<rparr>))"

definition deliver :: "env \<Rightarrow> nat \<Rightarrow> job \<Rightarrow> job" where
  "deliver e k j =
     (if cancel_at e = Some k then (case cancel_job j of Inr j' \<Rightarrow> j' | Inl _ \<Rightarrow> j) else j)"

definition LANGUAGES :: "job \<Rightarrow> jsstring list" where
  "LANGUAGES j = (case countries j of Some cs \<Rightarrow> cs | None \<Rightarrow> ALL_COUNTRIES)"

text \<open>
  The language loop. The result lists the states the job record passes through, in
  order, and the exception that leaves the function, if one does.
\<close>

fun language_loop :: "unicode \<Rightarrow> env \<Rightarrow> json list \<Rightarrow> nat \<Rightarrow> jsstring list \<Rightarrow> job \<Rightarrow> job list \<times> failure option" where
  "language_loop U e translations langIdx [] j = ([j\<lparr> status := Done, currentLang := [] \<rparr>], None)"
| "language_loop U e translations langIdx (lang # rest) j0 =
     (let j = deliver e (Suc langIdx) j0 in
      if job_cancelled j then ([j\<lparr> status := Cancelled, currentLang := [] \<rparr>], None)
      else
        let j1 = j\<lparr> currentLang := lang \<rparr> in
        case render_texts U (uppercase j1) translations lang 0 (job_texts j1) of
          Inl err \<Rightarrow> ([j1], Some err)
        | Inr rendered \<Rightarrow>
            if encode_fails e lang then ([j1], Some EncodeFailed)
            else
              let j2 = j1\<lparr> outputs := (outputs j1)(lang \<mapsto> OutVideo lang), completed := langIdx + 1 \<rparr>;
                  (states, thrown) = language_loop U e translations (Suc langIdx) rest j2
              in (j2 # states, thrown))"

definition generateAllCountries :: "unicode \<Rightarrow> env \<Rightarrow> job \<Rightarrow> job list \<times> failure option" where
  "generateAllCountries U e j0 =
     (case reply e of
        RequestFails \<Rightarrow> ([], Some TransportFailure)
      | Reply parsed \<Rightarrow>
          (let translations = parsed_translations parsed;
               j = deliver e 0 j0 in
           if job_cancelled j then ([j\<lparr> status := Cancelled \<rparr>], None)
           else
             let j1 = j\<lparr> status := Generating \<rparr>;
                 (states, thrown) = language_loop U e translations 0 (LANGUAGES j1) j1
             in (j1 # states, thrown)))"

text \<open>The \<open>catch\<close> of the generate handler.\<close>

definition on_rejection :: "job \<Rightarrow> failure \<Rightarrow> job" where
  "on_rejection j err = j\<lparr> status := Error, job_error := Some err \<rparr>"

text \<open>
  The states of the job record of the generate handler from its creation on, as a poll of
  the record reads them.
\<close>

definition job_history :: "unicode \<Rightarrow> env \<Rightarrow> job \<Rightarrow> job list" where
  "job_history U e j =
     (case generateAllCountries U e j of
        (states, None) \<Rightarrow> j # states
      | (states, Some err) \<Rightarrow> (j # states) @ [on_rejection (last (j # states)) err])"

text \<open>
  The status writes of the first localizer, \<open>processLocalizationJob\<close>: the job is created
  in the status \<open>analyzing\<close>, each stage writes its status when it starts, and an exception
  in a stage leaves the function; the \<open>catch\<close> of the handler then writes \<open>error\<close>.
  \<open>throws stage\<close> says that a call made while the job has that status throws.
\<close>

definition processLocalizationJob :: "(status \<Rightarrow> bool) \<Rightarrow> status list \<times> bool" where
  "processLocalizationJob throws =
     (if throws Analyzing then ([Analyzing], True)
      else if throws Translating then ([Analyzing, Translating], True)
      else if throws Generating then ([Analyzing, Translating, Generating], True)
      else ([Analyzing, Translating, Generating, Done], False))"

definition legacy_history :: "(status \<Rightarrow> bool) \<Rightarrow> status list" where
  "legacy_history throws =
     (case processLocalizationJob throws of
        (written, False) \<Rightarrow> Analyzing # written
      | (written, True) \<Rightarrow> Analyzing # written @ [Error])"

subsection \<open>The queue processor\<close>

text \<open>
  \<open>POST /api/queue/process\<close> starts \<open>processQueue\<close> and returns; nothing keeps a second
  call from starting a second run while the first is under way. A run works on the array
  it loaded when it started: it marks an entry in its own array, writes the whole array
  to the queue file, registers a fresh job record under the entry's id and awaits
  \<open>generateAllCountries\<close> on it. The server runs one piece of code at a time, from one
  \<open>await\<close> to the next; the state below changes by such pieces.

  A run holds the entries of its array before the current one, the current one and those
  after it, and, while it awaits a generation, the address of the job record, the states
  the record has yet to take and the exception that ends the generation, if one does.
\<close>

record run =
  run_before :: "queue_entry list"
  run_rest :: "queue_entry list"
  run_awaited :: "(nat \<times> job list \<times> failure option) option"

text \<open>
  The queue file, the job records by address, \<open>localizerJobs\<close> (the record registered
  under an id) and the runs started so far.
\<close>

record server =
  queue_file :: "queue_entry list"
  records :: "job list"
  localizerJobs :: "jsstring \<rightharpoonup> nat"
  runs :: "run list"

text \<open>
  The \<open>for\<close> loop of \<open>processQueue\<close> from the current entry on, up to the next \<open>await\<close> or
  the end of the array. \<open>video_exists\<close> is \<open>fs.existsSync\<close> on the entry's clean video.
\<close>

fun process_from :: "unicode \<Rightarrow> env \<Rightarrow> (jsstring \<Rightarrow> bool) \<Rightarrow> queue_entry list \<Rightarrow> queue_entry list \<Rightarrow>
    server \<Rightarrow> server \<times> run" where
  "process_from U e video_exists earlier [] sv =
     (sv, \<lparr> run_before = earlier, run_rest = [], run_awaited = None \<rparr>)"
| "process_from U e video_exists earlier (entry # rest) sv =
     (if q_status entry \<noteq> Pending then process_from U e video_exists (earlier @ [entry]) rest sv
      else
        let entry1 = entry\<lparr> q_status := Processing \<rparr>;
            sv1 = sv\<lparr> queue_file := earlier @ entry1 # rest \<rparr>
        in case genJob (video_exists (q_id entry1)) entry1 of
             Inl err \<Rightarrow>
               (let entry2 = entry1\<lparr> q_status := Failed \<rparr>;
                    sv2 = sv1\<lparr> queue_file := earlier @ entry2 # rest \<rparr>
                in process_from U e video_exists (earlier @ [entry2]) rest sv2)
           | Inr j \<Rightarrow>
               (let address = length (records sv1);
                    sv2 = sv1\<lparr> records := records sv1 @ [j],
                               localizerJobs := (localizerJobs sv1)(q_id entry1 \<mapsto> address) \<rparr>;
                    (states, thrown) = generateAllCountries U e j
                in (sv2, \<lparr> run_before = earlier, run_rest = entry1 # rest,
                           run_awaited = Some (address, states, thrown) \<rparr>)))"

text \<open>
  \<open>POST /api/queue/process\<close>: nothing happens when the file holds no pending entry;
  otherwise a run starts on the array loaded from the file.
\<close>

definition process_request :: "unicode \<Rightarrow> env \<Rightarrow> (jsstring \<Rightarrow> bool) \<Rightarrow> server \<Rightarrow> server" where
  "process_request U e video_exists sv =
     (if filter (\<lambda>entry. q_status entry = Pending) (queue_file sv) = [] then sv
      else let (sv', r) = process_from U e video_exists [] (queue_file sv) sv
           in sv'\<lparr> runs := runs sv' @ [r] \<rparr>)"

text \<open>
  Run \<open>r\<close> goes on after an \<open>await\<close>. Inside the generation the job record takes its next
  state. When the generation has returned or thrown, the entry is marked in the run's
  array, the array is written to the file, and the loop goes on with the next entry.
\<close>

definition resume :: "unicode \<Rightarrow> env \<Rightarrow> (jsstring \<Rightarrow> bool) \<Rightarrow> nat \<Rightarrow> server \<Rightarrow> server" where
  "resume U e video_exists r sv =
     (if r < length (runs sv) then
        (let this = runs sv ! r in
         case run_awaited this of
           None \<Rightarrow> sv
         | Some (address, state # states, thrown) \<Rightarrow>
             sv\<lparr> records := (records sv)[address := state],
                 runs := (runs sv)[r := this\<lparr> run_awaited := Some (address, states, thrown) \<rparr>] \<rparr>
         | Some (address, [], thrown) \<Rightarrow>
             (case run_rest this of
                [] \<Rightarrow> sv
              | entry # rest \<Rightarrow>
                  let entry' = entry\<lparr> q_status := (case thrown of None \<Rightarrow> Processed | Some err \<Rightarrow> Failed) \<rparr>;
                      sv1 = sv\<lparr> queue_file := run_before this @ entry' # rest \<rparr>;
                      (sv2, this') = process_from U e video_exists (run_before this @ [entry']) rest sv1
                  in sv2\<lparr> runs := (runs sv2)[r := this'] \<rparr>))
      else sv)"

text \<open>
  What happens on the server, in order: a request to process the queue, or a run that
  goes on. \<open>play\<close> lists the states of the server after each event.
\<close>

datatype event = ProcessRequest | Resume nat

fun play :: "unicode \<Rightarrow> env \<Rightarrow> (jsstring \<Rightarrow> bool) \<Rightarrow> event list \<Rightarrow> server \<Rightarrow> server list" where
  "play U e video_exists [] sv = []"
| "play U e video_exists (ev # evs) sv =
     (let sv' = (case ev of ProcessRequest \<Rightarrow> process_request U e video_exists sv
                          | Resume r \<Rightarrow> resume U e video_exists r sv)
      in sv' # play U e video_exists evs sv')"

text \<open>\<open>GET /api/localizer/job/:id\<close>: the status of the record registered under the id.\<close>

definition poll :: "jsstring \<Rightarrow> server \<Rightarrow> status option" where
  "poll ident sv = map_option (\<lambda>address. status (records sv ! address)) (localizerJobs sv ident)"

subsection \<open>The order of the states\<close>

definition pipeline_order :: "status list" where
  "pipeline_order = [Queued, Analyzing, Translating, Generating, Done]"

definition terminal :: "status \<Rightarrow> bool" where
  "terminal s \<longleftrightarrow> s = Error \<or> s = Cancelled"

text \<open>
  A sequence of distinct successive status values is in order when it is a subsequence
  of the pipeline, or a subsequence of the pipeline before \<open>done\<close> followed by one terminal
  status.
\<close>

definition in_order :: "status list \<Rightarrow> bool" where
  "in_order obs \<longleftrightarrow>
     subseq obs pipeline_order
     \<or> (obs \<noteq> [] \<and> terminal (last obs) \<and> subseq (butlast obs) (butlast pipeline_order))"

text \<open>
  The place of a status in the pipeline, the three states that end a job last, and the
  relation of a state to the states it may be followed by.
\<close>

definition rank :: "status \<Rightarrow> nat" where
  "rank s = (case s of Queued \<Rightarrow> 0 | Analyzing \<Rightarrow> 1 | Translating \<Rightarrow> 2 | Generating \<Rightarrow> 3 | Done \<Rightarrow> 4
             | Error \<Rightarrow> 4 | Cancelled \<Rightarrow> 4)"

definition same_or_later :: "status \<Rightarrow> status \<Rightarrow> bool" where
  "same_or_later a b \<longleftrightarrow> a = b \<or> rank a < rank b"

section \<open>Deleting a job: \<open>DELETE /api/localizer/job/:id\<close>\<close>

text \<open>
  The registry in memory, the file \<open>localizer-jobs.json\<close> written by \<open>persistJobs\<close>, and
  the job ids whose directory \<open>uploads/generated/<id>\<close> exists.
\<close>

record store =
  jobs :: "jsstring \<rightharpoonup> job"
  saved :: "jsstring \<rightharpoonup> job"
  dirs :: "jsstring set"

datatype response = Success | NotFound | Forbidden

text \<open>\<open>job.namingParts?.author?.toUpperCase() || ''\<close>\<close>

definition jobAuthor :: "unicode \<Rightarrow> job \<Rightarrow> jsstring" where
  "jobAuthor U j =
     (case namingParts j of
        None \<Rightarrow> []
      | Some parts \<Rightarrow> (case author parts of None \<Rightarrow> [] | Some a \<Rightarrow> toUpperCase U a))"

text \<open>\<open>(author || '').toUpperCase()\<close>; \<open>None\<close> is a body without \<open>author\<close>.\<close>

definition requestAuthor :: "unicode \<Rightarrow> jsstring option \<Rightarrow> jsstring" where
  "requestAuthor U author_in = toUpperCase U (case author_in of None \<Rightarrow> [] | Some a \<Rightarrow> a)"

definition delete_job :: "unicode \<Rightarrow> store \<Rightarrow> jsstring \<Rightarrow> jsstring option \<Rightarrow> response \<times> store" where
  "delete_job U st ident author_in =
     (case jobs st ident of
        None \<Rightarrow> (NotFound, st)
      | Some j \<Rightarrow>
          if jobAuthor U j \<noteq> [] \<and> requestAuthor U author_in \<noteq> [] \<and> jobAuthor U j \<noteq> requestAuthor U author_in
          then (Forbidden, st)
          else (let jobs' = (jobs st)(ident := None)
                in (Success, st\<lparr> dirs := dirs st - {job_id j}, jobs := jobs', saved := jobs' \<rparr>)))"

section \<open>Sample inputs\<close>

text \<open>Concrete requests, replies and stores on which the theorems below are run.\<close>

definition sample_request :: "jsstring list option \<Rightarrow> bool \<Rightarrow> request" where
  "sample_request cs upper =
     \<lparr> req_videoClean = Some (cps ''clean.mp4''), req_texts = [cps ''sale'', cps ''new''],
       req_countries = cs, req_uppercase = upper,
       req_namingParts = Some \<lparr> author = Some (cps ''ana'') \<rparr> \<rparr>"

definition sample_job :: "jsstring list \<Rightarrow> bool \<Rightarrow> job" where
  "sample_job cs upper =
     \<lparr> job_id = cps ''gen-1'', namingParts = Some \<lparr> author = Some (cps ''ana'') \<rparr>,
       job_texts = [cps ''sale'', cps ''new''], uppercase = upper, countries = Some cs,
       status = Translating, completed = 0, currentLang = [], outputs = Map.empty,
       job_cancelled = False, job_error = None \<rparr>"

definition sample_entry :: "string \<Rightarrow> queue_entry" where
  "sample_entry name =
     \<lparr> q_id = cps name, q_namingParts = Some \<lparr> author = Some (cps ''ana'') \<rparr>,
       q_texts = [cps ''sale''], q_countries = Some [cps ''HR''], q_status = Pending \<rparr>"

text \<open>A server that has just started, with two entries waiting in the queue file.\<close>

definition sample_server :: server where
  "sample_server =
     \<lparr> queue_file = [sample_entry ''queue-1'', sample_entry ''queue-2''],
       records = [], localizerJobs = Map.empty, runs = [] \<rparr>"

text \<open>A reply that translates the first text into Croatian only.\<close>

definition sample_reply :: "json list" where
  "sample_reply = [JObj [(cps ''HR'', JStr (cps ''rasprodaja''))]]"

definition sample_env :: "json list option \<Rightarrow> nat option \<Rightarrow> jsstring list \<Rightarrow> env" where
  "sample_env parsed cancel failing =
     \<lparr> reply = Reply parsed, cancel_at = cancel, encode_fails = (\<lambda>lang. lang \<in> set failing) \<rparr>"

definition sample_store :: store where
  "sample_store =
     \<lparr> jobs = [cps ''gen-1'' \<mapsto> sample_job ALL_COUNTRIES False],
       saved = [cps ''gen-1'' \<mapsto> sample_job ALL_COUNTRIES False],
       dirs = {cps ''gen-1''} \<rparr>"

section \<open>Properties of the numbers\<close>

text \<open>
  \<open>binade\<close> is the floor of the binary logarithm, and a value whose binade is known is
  rounded on the grid of that binade.
\<close>

lemma pow2_pos [simp]: "0 < pow2 k"
  by (simp add: pow2_def)

lemma pow2_powr: "pow2 k = 2 powr (of_int k)"
  by (auto simp: pow2_def powr_realpow[symmetric] powr_minus field_simps)

lemma pow2_add: "pow2 (a + b) = pow2 a * pow2 b"
  by (simp add: pow2_powr powr_add)

lemma pow2_mono: "a \<le> b \<Longrightarrow> pow2 a \<le> pow2 b"
  by (simp add: pow2_powr)

lemma binade_unique:
  assumes "pow2 k \<le> \<bar>x\<bar>" "\<bar>x\<bar> < pow2 (k + 1)"
  shows "binade x = k"
proof (cases "1 \<le> \<bar>x\<bar>")
  case True
  have k0: "0 \<le> k"
  proof (rule ccontr)
    assume "\<not> 0 \<le> k"
    then have "k + 1 \<le> 0" by simp
    then have "pow2 (k + 1) \<le> pow2 0" by (rule pow2_mono)
    then show False using assms(2) True by (simp add: pow2_def)
  qed
  let ?n = "\<lfloor>\<bar>x\<bar>\<rfloor>"
  have lo: "(2::int) ^ nat k \<le> ?n"
  proof -
    have "of_int ((2::int) ^ nat k) \<le> \<bar>x\<bar>" using assms(1) k0 by (simp add: pow2_def)
    then show ?thesis by (simp only: le_floor_iff)
  qed
  have hi: "?n < 2 ^ nat (k + 1)"
  proof -
    have "\<bar>x\<bar> < of_int ((2::int) ^ nat (k + 1))" using assms(2) k0 by (simp add: pow2_def)
    then show ?thesis by (simp only: floor_less_iff)
  qed
  have "bitlen ?n \<le> k + 1" using hi k0 by (simp add: bitlen_le_iff_power)
  moreover have "k + 1 \<le> bitlen ?n" using lo k0 by (simp add: bitlen_ge_iff_power nat_add_distrib)
  ultimately show ?thesis using True by (simp add: binade_def)
next
  case False
  then have x1: "\<bar>x\<bar> < 1" by simp
  have xpos: "0 < \<bar>x\<bar>" using assms(1) pow2_pos[of k] by linarith
  have k0: "k < 0"
  proof (rule ccontr)
    assume "\<not> k < 0"
    then have "pow2 0 \<le> pow2 k" by (intro pow2_mono) simp
    then show False using assms(1) x1 by (simp add: pow2_def)
  qed
  let ?y = "1 / \<bar>x\<bar>"
  let ?m = "\<lceil>?y\<rceil> - 1"
  have p: "pow2 k = 1 / 2 ^ nat (- k)" "pow2 (k + 1) = 1 / 2 ^ nat (- k - 1)"
    using k0 by (auto simp: pow2_def)
  have ylo: "2 ^ nat (- k - 1) < ?y"
    using assms(2) xpos unfolding p by (simp add: field_simps)
  have yhi: "?y \<le> 2 ^ nat (- k)"
    using assms(1) xpos unfolding p by (simp add: field_simps)
  have lo: "(2::int) ^ nat (- k - 1) \<le> ?m"
  proof -
    have "of_int ((2::int) ^ nat (- k - 1)) < ?y" using ylo by simp
    then have "(2::int) ^ nat (- k - 1) < \<lceil>?y\<rceil>" by (simp only: less_ceiling_iff)
    then show ?thesis by simp
  qed
  have hi: "?m < 2 ^ nat (- k)"
  proof -
    have "?y \<le> of_int ((2::int) ^ nat (- k))" using yhi by simp
    then have "\<lceil>?y\<rceil> \<le> (2::int) ^ nat (- k)" by (simp only: ceiling_le_iff)
    then show ?thesis by simp
  qed
  have "bitlen ?m \<le> - k" using hi k0 by (simp add: bitlen_le_iff_power)
  moreover have "- k \<le> bitlen ?m"
  proof -
    have "nat (- k) - 1 = nat (- k - 1)" using k0 by simp
    then show ?thesis using lo by (simp add: bitlen_ge_iff_power)
  qed
  ultimately show ?thesis using False by (simp add: binade_def)
qed

lemma binade_log: "x \<noteq> 0 \<Longrightarrow> binade x = \<lfloor>log 2 \<bar>x\<bar>\<rfloor>"
proof -
  assume "x \<noteq> 0"
  then have pos: "0 < \<bar>x\<bar>" by simp
  let ?k = "\<lfloor>log 2 \<bar>x\<bar>\<rfloor>"
  have "2 powr (of_int ?k) \<le> \<bar>x\<bar> \<and> \<bar>x\<bar> < 2 powr (of_int (?k + 1))"
    using pos floor_log_eq_powr_iff[of "\<bar>x\<bar>" 2 ?k] by simp
  then show ?thesis
    using binade_unique[of ?k x] by (simp add: pow2_powr)
qed

lemma fl_eval:
  assumes "pow2 k \<le> \<bar>x\<bar>" "\<bar>x\<bar> < pow2 (k + 1)" "q = max k (- 1022) - 52"
  shows "fl x = of_int (rne (x / pow2 q)) * pow2 q"
proof -
  have "0 < \<bar>x\<bar>" using assms(1) pow2_pos[of k] by linarith
  then have "x \<noteq> 0" by auto
  then show ?thesis
    using binade_unique[OF assms(1,2)] assms(3) by (simp add: fl_def Let_def)
qed


text \<open>The rewrite rules that evaluate the arithmetic on given numerals.\<close>

lemmas num_eval = double_def fl_def binade_def rne_def pow2_def Let_def compute_bitlen decimal_def
  mul10_def div10_def js_round_def lt_def ge_def truthy_number_def

section \<open>Properties of the scene splitter\<close>

lemma coalesce_hd: "raw \<noteq> [] \<Longrightarrow> coalesce raw ts \<noteq> [] \<and> hd (coalesce raw ts) = hd raw"
  by (induction ts arbitrary: raw) auto

lemma coalesce_set: "set (coalesce raw ts) \<subseteq> set raw \<union> set ts"
proof (induction ts arbitrary: raw)
  case Nil
  then show ?case by simp
next
  case (Cons a ts)
  show ?case
    using Cons.IH[of "raw @ [a]"] Cons.IH[of raw] by (auto split: if_splits)
qed

lemma raw_segments_chained:
  assumes "raw \<noteq> []" "hd raw = Fin 0"
  shows "chained totalSeconds (raw_segments raw totalSeconds)"
proof -
  from assms obtain n where n: "length raw = Suc n" by (cases raw) auto
  have "raw ! 0 = Fin 0" using assms by (cases raw) auto
  then show ?thesis
    using assms n
    by (simp add: chained_def raw_segments_def hd_map last_map hd_upt del: upt_Suc)
qed

lemma raw_segments_bounds: "bounds_in (insert totalSeconds (set raw)) (raw_segments raw totalSeconds)"
  by (auto simp: bounds_in_def raw_segments_def)

lemma short_index_less: "short_index ss = Some i \<Longrightarrow> i < length ss"
  by (induction ss arbitrary: i) (auto split: if_splits)

lemma short_index_None:
  "short_index ss = None \<Longrightarrow> \<forall>s \<in> set ss. \<not> lt (sub (s_end s) (s_start s)) MIN_DURATION"
  by (induction ss) (auto split: if_splits)

lemma splice1_not_Nil: "1 < length xs \<Longrightarrow> splice1 i xs \<noteq> []"
  by (cases xs; cases i) (auto simp: splice1_def)

lemma hd_splice1:
  "1 < length xs \<Longrightarrow> hd (splice1 i xs) = (if i = 0 then xs ! 1 else xs ! 0)"
  by (cases xs; cases i) (auto simp: splice1_def hd_conv_nth)

lemma last_splice1:
  assumes "1 < length xs" "i < length xs"
  shows "last (splice1 i xs) = (if Suc i = length xs then xs ! (i - 1) else xs ! (length xs - 1))"
proof (cases "Suc i = length xs")
  case True
  then have "splice1 i xs = take i xs" by (simp add: splice1_def)
  moreover have "take i xs \<noteq> []" using assms True by auto
  ultimately show ?thesis using True assms by (simp add: last_conv_nth)
next
  case False
  then have "drop (Suc i) xs \<noteq> []" using assms by simp
  then have "last (splice1 i xs) = last xs"
    using False assms by (simp add: splice1_def last_drop)
  moreover have "xs \<noteq> []" using assms by auto
  ultimately show ?thesis using False by (simp add: last_conv_nth)
qed

lemma set_splice1: "set (splice1 i xs) \<subseteq> set xs"
  by (auto simp: splice1_def dest: in_set_takeD in_set_dropD)

lemma merge_pass_bounds:
  assumes "bounds_in S segs" "merge_pass segs = Some segs'"
  shows "bounds_in S segs'"
proof -
  from assms(2) obtain i where len: "1 < length segs" and i: "short_index segs = Some i"
    and segs': "segs' = (if i < length segs - 1
        then splice1 i (segs[i + 1 := (segs ! (i + 1))\<lparr> s_start := s_start (segs ! i) \<rparr>])
        else splice1 i (segs[i - 1 := (segs ! (i - 1))\<lparr> s_end := s_end (segs ! i) \<rparr>]))"
    by (auto simp: merge_pass_def split: if_splits option.splits)
  have ilt: "i < length segs" using short_index_less[OF i] .
  have nth: "s_start (segs ! k) \<in> S \<and> s_end (segs ! k) \<in> S" if "k < length segs" for k
    using assms(1) that by (auto simp: bounds_in_def)
  have upd: "bounds_in S (segs[k := v])" if "s_start v \<in> S" "s_end v \<in> S" for k v
    using assms(1) that set_update_subset_insert[of segs k v] by (auto simp: bounds_in_def)
  have sp: "bounds_in S (splice1 k xs)" if "bounds_in S xs" for k xs
    using that set_splice1[of k xs] by (auto simp: bounds_in_def)
  show ?thesis
  proof (cases "i < length segs - 1")
    case True
    have "bounds_in S (segs[i + 1 := (segs ! (i + 1))\<lparr> s_start := s_start (segs ! i) \<rparr>])"
      using True nth[of i] nth[of "i + 1"] by (intro upd) auto
    then show ?thesis using True segs' sp by simp
  next
    case False
    have "bounds_in S (segs[i - 1 := (segs ! (i - 1))\<lparr> s_end := s_end (segs ! i) \<rparr>])"
      using ilt nth[of i] nth[of "i - 1"] by (intro upd) auto
    then show ?thesis using False segs' sp by simp
  qed
qed

lemma merge_loop_bounds: "bounds_in S segs \<Longrightarrow> bounds_in S (merge_loop segs)"
proof (induction segs rule: merge_loop.induct)
  case (1 segments)
  show ?case
  proof (cases "merge_pass segments")
    case None
    then show ?thesis using "1.prems" by simp
  next
    case (Some segments')
    then show ?thesis using 1 merge_pass_bounds by simp
  qed
qed

lemma merge_pass_chained:
  assumes "chained t segs" "merge_pass segs = Some segs'"
  shows "chained t segs'"
proof -
  from assms(2) obtain i where len: "1 < length segs" and i: "short_index segs = Some i"
    and segs': "segs' = (if i < length segs - 1
        then splice1 i (segs[i + 1 := (segs ! (i + 1))\<lparr> s_start := s_start (segs ! i) \<rparr>])
        else splice1 i (segs[i - 1 := (segs ! (i - 1))\<lparr> s_end := s_end (segs ! i) \<rparr>]))"
    by (auto simp: merge_pass_def split: if_splits option.splits)
  have ilt: "i < length segs" using short_index_less[OF i] .
  have h0: "s_start (segs ! 0) = Fin 0" and l0: "s_end (segs ! (length segs - 1)) = t"
    using assms(1) by (auto simp: chained_def hd_conv_nth last_conv_nth)
  show ?thesis
  proof (cases "i < length segs - 1")
    case True
    let ?xs = "segs[i + 1 := (segs ! (i + 1))\<lparr> s_start := s_start (segs ! i) \<rparr>]"
    have "s_start (hd (splice1 i ?xs)) = Fin 0"
      using len True h0 by (simp add: hd_splice1 nth_list_update)
    moreover have "s_end (last (splice1 i ?xs)) = t"
      using len True ilt l0 by (auto simp: last_splice1 nth_list_update)
    ultimately show ?thesis
      using True segs' len by (simp add: chained_def splice1_not_Nil)
  next
    case False
    then have ieq: "Suc i = length segs" using ilt by simp
    then have ii: "i = length segs - 1" by simp
    let ?xs = "segs[i - 1 := (segs ! (i - 1))\<lparr> s_end := s_end (segs ! i) \<rparr>]"
    have "s_start (hd (splice1 i ?xs)) = Fin 0"
      using len ieq h0 by (auto simp: hd_splice1 nth_list_update)
    moreover have "s_end (last (splice1 i ?xs)) = t"
      using len ieq ilt l0 unfolding ii by (auto simp: last_splice1 nth_list_update)
    ultimately show ?thesis
      using False segs' len by (simp add: chained_def splice1_not_Nil)
  qed
qed

lemma merge_loop_chained: "chained t segs \<Longrightarrow> chained t (merge_loop segs)"
proof (induction segs rule: merge_loop.induct)
  case (1 segments)
  show ?case
  proof (cases "merge_pass segments")
    case None
    then show ?thesis using "1.prems" by simp
  next
    case (Some segments')
    then show ?thesis using 1 merge_pass_chained by simp
  qed
qed

lemma merge_loop_stops:
  "length (merge_loop segs) \<le> 1
   \<or> (\<forall>s \<in> set (merge_loop segs). \<not> lt (sub (s_end s) (s_start s)) MIN_DURATION)"
proof (induction segs rule: merge_loop.induct)
  case (1 segments)
  show ?case
  proof (cases "merge_pass segments")
    case None
    then show ?thesis
      by (auto simp: merge_pass_def split: if_splits option.splits dest: short_index_None)
  next
    case (Some segments')
    then show ?thesis using 1 by simp
  qed
qed

lemma sub_finite: "finite_number a \<Longrightarrow> finite_number b \<Longrightarrow> sub a b \<noteq> NaN"
  by (cases a; cases b) (auto simp: finite_number_def double_def Let_def)

lemma chained_single:
  "chained t segs \<Longrightarrow> length segs \<le> 1 \<Longrightarrow> segs = [\<lparr>s_start = Fin 0, s_end = t\<rparr>]"
  by (cases segs) (auto simp: chained_def)


text \<open>
  Claim C7, as the code runs it. The cut at 0.4 s lies 0.4 s after the last kept cut 0,
  so it is kept: the raw cuts are 0, 0.4, 5 and 9, and there are four raw intervals. The
  first, 0.4 s long, is merged into its successor; the last is exactly one second long
  and stays. The final scenes are 0 to 5, 5 to 9 and 9 to 10.
\<close>

theorem scene_scenario:
  "coalesce [Fin 0] [Fin 0, decimal (1 / 5), decimal (2 / 5), Fin 5, Fin 9] = [Fin 0, decimal (2 / 5), Fin 5, Fin 9]
   \<and> raw_segments [Fin 0, decimal (2 / 5), Fin 5, Fin 9] (Fin 10) =
       [\<lparr>s_start = Fin 0, s_end = decimal (2 / 5)\<rparr>, \<lparr>s_start = decimal (2 / 5), s_end = Fin 5\<rparr>,
        \<lparr>s_start = Fin 5, s_end = Fin 9\<rparr>, \<lparr>s_start = Fin 9, s_end = Fin 10\<rparr>]
   \<and> merge_loop [\<lparr>s_start = Fin 0, s_end = decimal (2 / 5)\<rparr>, \<lparr>s_start = decimal (2 / 5), s_end = Fin 5\<rparr>,
                 \<lparr>s_start = Fin 5, s_end = Fin 9\<rparr>, \<lparr>s_start = Fin 9, s_end = Fin 10\<rparr>] =
       [\<lparr>s_start = Fin 0, s_end = Fin 5\<rparr>, \<lparr>s_start = Fin 5, s_end = Fin 9\<rparr>, \<lparr>s_start = Fin 9, s_end = Fin 10\<rparr>]
   \<and> smart_analyze [Fin 0, decimal (1 / 5), decimal (2 / 5), Fin 5, Fin 9] (Fin 10) =
       [\<lparr>s_start = Fin 0, s_end = Fin 5\<rparr>, \<lparr>s_start = Fin 5, s_end = Fin 9\<rparr>, \<lparr>s_start = Fin 9, s_end = Fin 10\<rparr>]"
proof -
  have cuts: "coalesce [Fin 0] [Fin 0, decimal (1 / 5), decimal (2 / 5), Fin 5, Fin 9] = [Fin 0, decimal (2 / 5), Fin 5, Fin 9]"
    by (simp add: num_eval)
  have raw: "raw_segments [Fin 0, decimal (2 / 5), Fin 5, Fin 9] (Fin 10) =
       [\<lparr>s_start = Fin 0, s_end = decimal (2 / 5)\<rparr>, \<lparr>s_start = decimal (2 / 5), s_end = Fin 5\<rparr>,
        \<lparr>s_start = Fin 5, s_end = Fin 9\<rparr>, \<lparr>s_start = Fin 9, s_end = Fin 10\<rparr>]"
    by (simp add: raw_segments_def upt_rec num_eval)
  have merged: "merge_loop [\<lparr>s_start = Fin 0, s_end = decimal (2 / 5)\<rparr>, \<lparr>s_start = decimal (2 / 5), s_end = Fin 5\<rparr>,
                 \<lparr>s_start = Fin 5, s_end = Fin 9\<rparr>, \<lparr>s_start = Fin 9, s_end = Fin 10\<rparr>] =
       [\<lparr>s_start = Fin 0, s_end = Fin 5\<rparr>, \<lparr>s_start = Fin 5, s_end = Fin 9\<rparr>, \<lparr>s_start = Fin 9, s_end = Fin 10\<rparr>]"
    by (simp add: merge_pass_def splice1_def MIN_DURATION_def num_eval)
  have rounded: "smart_analyze [Fin 0, decimal (1 / 5), decimal (2 / 5), Fin 5, Fin 9] (Fin 10) =
       [\<lparr>s_start = Fin 0, s_end = Fin 5\<rparr>, \<lparr>s_start = Fin 5, s_end = Fin 9\<rparr>, \<lparr>s_start = Fin 9, s_end = Fin 10\<rparr>]"
    unfolding smart_analyze_def cuts raw merged
    by (simp add: round_scene_def num_eval)
  show ?thesis using cuts raw merged rounded by blast
qed


text \<open>The raw cuts of the scenario are not 0, 5 and 9, and there are not three raw intervals.\<close>

theorem scene_scenario_counterexample:
  "coalesce [Fin 0] [Fin 0, decimal (1 / 5), decimal (2 / 5), Fin 5, Fin 9] \<noteq> [Fin 0, Fin 5, Fin 9]
   \<and> raw_segments (coalesce [Fin 0] [Fin 0, decimal (1 / 5), decimal (2 / 5), Fin 5, Fin 9]) (Fin 10) \<noteq>
       [\<lparr>s_start = Fin 0, s_end = Fin 5\<rparr>, \<lparr>s_start = Fin 5, s_end = Fin 9\<rparr>, \<lparr>s_start = Fin 9, s_end = Fin 10\<rparr>]"
  by (simp add: raw_segments_def upt_rec num_eval)


section \<open>Rounding the bounds to one decimal\<close>

text \<open>
  The merge loop compares \<open>end - start\<close>, rounded to a double, with \<open>MIN_DURATION\<close>; the
  response holds \<open>Math.round(x * 10) / 10\<close> of each bound. This section shows that the
  counts of tenths of the two bounds of an interval that the loop keeps are at least ten
  apart. The first lemmas are about \<open>fl\<close>: it is monotone, it leaves the halves below
  \<open>pow2 52\<close> alone, and it rounds a value to a given multiple of the spacing exactly when
  the value lies within half the spacing of it.
\<close>

lemma fl_grid: "fl x = (if x = 0 then 0 else of_int (rne (x / grid x)) * grid x)"
  by (simp add: fl_def grid_def Let_def)

lemma pow2_diff: "pow2 (a - b) = pow2 a / pow2 b"
  by (simp add: pow2_powr powr_diff)

lemma pow2_strict_mono: "a < b \<Longrightarrow> pow2 a < pow2 b"
  by (simp add: pow2_powr)

lemma pow2_le_iff: "pow2 a \<le> pow2 b \<longleftrightarrow> a \<le> b"
  by (simp add: pow2_powr)

lemma pow2_nat: "0 \<le> k \<Longrightarrow> pow2 k = of_int (2 ^ nat k)"
  by (simp add: pow2_def)

lemma pow2_0 [simp]: "pow2 0 = 1"
  by (simp add: pow2_def)

lemma binade_bounds:
  assumes "x \<noteq> 0"
  shows "pow2 (binade x) \<le> \<bar>x\<bar>" "\<bar>x\<bar> < pow2 (binade x + 1)"
proof -
  have pos: "0 < \<bar>x\<bar>" using assms by simp
  have "2 powr (of_int \<lfloor>log 2 \<bar>x\<bar>\<rfloor>) \<le> \<bar>x\<bar> \<and> \<bar>x\<bar> < 2 powr (of_int (\<lfloor>log 2 \<bar>x\<bar>\<rfloor> + 1))"
    using pos floor_log_eq_powr_iff[of "\<bar>x\<bar>" 2 "\<lfloor>log 2 \<bar>x\<bar>\<rfloor>"] by simp
  then show "pow2 (binade x) \<le> \<bar>x\<bar>" "\<bar>x\<bar> < pow2 (binade x + 1)"
    using binade_log[OF assms] by (simp_all add: pow2_powr)
qed

lemma binade_mono:
  assumes "0 < x" "x \<le> y"
  shows "binade x \<le> binade y"
proof (rule ccontr)
  assume "\<not> binade x \<le> binade y"
  then have "binade y + 1 \<le> binade x" by simp
  then have "pow2 (binade y + 1) \<le> pow2 (binade x)" by (rule pow2_mono)
  moreover have "y < pow2 (binade y + 1)" using binade_bounds(2)[of y] assms by simp
  moreover have "pow2 (binade x) \<le> x" using binade_bounds(1)[of x] assms by simp
  ultimately show False using assms by linarith
qed

lemma grid_pos [simp]: "0 < grid x"
  by (simp add: grid_def)

lemma grid_mono: "0 < x \<Longrightarrow> x \<le> y \<Longrightarrow> grid x \<le> grid y"
  unfolding grid_def using binade_mono[of x y] by (intro pow2_mono) simp

lemma grid_ratio:
  assumes "0 < x" "x \<le> y"
  shows "\<exists>n. grid y = 2 ^ n * grid x"
proof -
  let ?a = "max (binade x) (- 1022) - 52" and ?b = "max (binade y) (- 1022) - 52"
  have le: "?a \<le> ?b" using binade_mono[OF assms] by simp
  have "pow2 ?b = pow2 (?b - ?a) * pow2 ?a"
    using pow2_add[of "?b - ?a" ?a] by simp
  moreover have "pow2 (?b - ?a) = 2 ^ nat (?b - ?a)" using le by (simp add: pow2_def)
  ultimately show ?thesis unfolding grid_def by metis
qed

text \<open>The nearest integer.\<close>

lemma rne_int [simp]: "rne (of_int m) = m"
  by (simp add: rne_def)

lemma rne_cases:
  "rne z = \<lfloor>z\<rfloor> \<or> rne z = \<lfloor>z\<rfloor> + 1"
  by (simp add: rne_def Let_def)

lemma rne_ge:
  assumes "of_int m - 1 / 2 < z"
  shows "m \<le> rne z"
proof -
  have "m - 1 \<le> \<lfloor>z\<rfloor>"
  proof -
    have "of_int (m - 1) \<le> z" using assms by simp
    then show ?thesis by (simp only: le_floor_iff)
  qed
  then consider "m \<le> \<lfloor>z\<rfloor>" | "\<lfloor>z\<rfloor> = m - 1" by linarith
  then show ?thesis
  proof cases
    case 1
    then show ?thesis using rne_cases[of z] by linarith
  next
    case 2
    then have "1 / 2 < z - of_int \<lfloor>z\<rfloor>" using assms by simp
    then have "rne z = \<lfloor>z\<rfloor> + 1" by (simp add: rne_def Let_def)
    then show ?thesis using 2 by simp
  qed
qed

lemma rne_ge_even:
  assumes "of_int m - 1 / 2 \<le> z" "even m"
  shows "m \<le> rne z"
proof (cases "of_int m - 1 / 2 < z")
  case True
  then show ?thesis by (rule rne_ge)
next
  case False
  then have z: "z = of_int m - 1 / 2" using assms by simp
  have f: "\<lfloor>z\<rfloor> = m - 1"
    unfolding z by (simp add: floor_eq_iff)
  have "z - of_int (m - 1) = 1 / 2" using z by simp
  then have "z - of_int \<lfloor>z\<rfloor> = 1 / 2" using f by simp
  moreover have "odd \<lfloor>z\<rfloor>" using f assms(2) by simp
  ultimately have "rne z = \<lfloor>z\<rfloor> + 1" by (simp add: rne_def Let_def)
  then show ?thesis using f by simp
qed

lemma rne_le:
  assumes "z < of_int m + 1 / 2"
  shows "rne z \<le> m"
proof -
  have "\<lfloor>z\<rfloor> \<le> m"
  proof -
    have "z < of_int (m + 1)" using assms by simp
    then have "\<lfloor>z\<rfloor> < m + 1" by (simp only: floor_less_iff)
    then show ?thesis by simp
  qed
  then consider "\<lfloor>z\<rfloor> < m" | "\<lfloor>z\<rfloor> = m" by linarith
  then show ?thesis
  proof cases
    case 1
    then show ?thesis using rne_cases[of z] by linarith
  next
    case 2
    then have "z - of_int \<lfloor>z\<rfloor> < 1 / 2" using assms by simp
    then have "rne z = \<lfloor>z\<rfloor>" by (simp add: rne_def Let_def)
    then show ?thesis using 2 by simp
  qed
qed

lemma rne_ge_D:
  assumes "m \<le> rne z"
  shows "of_int m - 1 / 2 \<le> z"
proof (rule ccontr)
  assume "\<not> of_int m - 1 / 2 \<le> z"
  then have "z < of_int (m - 1) + 1 / 2" by simp
  then have "rne z \<le> m - 1" by (rule rne_le)
  then show False using assms by simp
qed

lemma rne_ge_tie:
  assumes "m \<le> rne z" "z = of_int m - 1 / 2"
  shows "even m"
proof (rule ccontr)
  assume odd: "odd m"
  have f: "\<lfloor>z\<rfloor> = m - 1"
    unfolding assms(2) by (simp add: floor_eq_iff)
  have "z - of_int (m - 1) = 1 / 2" using assms(2) by simp
  then have "z - of_int \<lfloor>z\<rfloor> = 1 / 2" using f by simp
  moreover have "even \<lfloor>z\<rfloor>" using f odd by simp
  ultimately have "rne z = \<lfloor>z\<rfloor>" by (simp add: rne_def Let_def)
  then show False using f assms(1) by simp
qed

lemma rne_mono:
  assumes "x \<le> y"
  shows "rne x \<le> rne y"
proof -
  have "of_int (rne x) - 1 / 2 \<le> x" by (rule rne_ge_D) simp
  then have le: "of_int (rne x) - 1 / 2 \<le> y" using assms by simp
  show ?thesis
  proof (cases "of_int (rne x) - 1 / 2 < y")
    case True
    then show ?thesis by (rule rne_ge)
  next
    case False
    then have y: "y = of_int (rne x) - 1 / 2" using le by simp
    then have "x = of_int (rne x) - 1 / 2" using assms \<open>of_int (rne x) - 1 / 2 \<le> x\<close> by simp
    then have "even (rne x)" by (intro rne_ge_tie[of "rne x" x]) simp_all
    then show ?thesis using le by (intro rne_ge_even)
  qed
qed


lemma grid_nonneg [simp]: "0 \<le> grid x"
  using grid_pos[of x] by linarith

lemma grid_neq0 [simp]: "grid x \<noteq> 0"
  using grid_pos[of x] by linarith

lemma div_grid_mono: "a \<le> b \<Longrightarrow> a / grid x \<le> b / grid x"
  by (rule divide_right_mono) simp_all

lemma mult_grid_mono: "a \<le> b \<Longrightarrow> a * grid x \<le> b * grid x"
  by (rule mult_right_mono) simp_all

lemma pow2_less_iff: "pow2 a < pow2 b \<longleftrightarrow> a < b"
  by (simp add: pow2_powr)

lemma pow2_neq0 [simp]: "pow2 k \<noteq> 0"
  using pow2_pos[of k] by linarith

lemma pow2_split53: "pow2 (k + 1) = 2 ^ 53 * pow2 (k - 52)"
proof -
  have "k + 1 = 53 + (k - 52)" by simp
  then have "pow2 (k + 1) = pow2 53 * pow2 (k - 52)" by (metis pow2_add)
  then show ?thesis by (simp add: pow2_def)
qed

lemma pow2_split52: "pow2 k = 2 ^ 52 * pow2 (k - 52)"
proof -
  have "k = 52 + (k - 52)" by simp
  then have "pow2 k = pow2 52 * pow2 (k - 52)" by (metis pow2_add)
  then show ?thesis by (simp add: pow2_def)
qed

lemma fl_exact:
  assumes "x / grid x = of_int m"
  shows "fl x = x"
proof (cases "x = 0")
  case True
  then show ?thesis by (simp add: fl_grid)
next
  case False
  have "x = of_int m * grid x" using assms grid_pos[of x] by (simp add: field_simps)
  then show ?thesis using False assms by (simp add: fl_grid)
qed

lemma fl_nonneg: "0 \<le> x \<Longrightarrow> 0 \<le> fl x"
proof -
  assume x: "0 \<le> x"
  have "0 \<le> x / grid x" using x by simp
  then have "of_int 0 - 1 / 2 < x / grid x" by simp
  then have "0 \<le> rne (x / grid x)" by (rule rne_ge)
  then show ?thesis using grid_pos[of x] by (simp add: fl_grid)
qed

lemma fl_nonpos: "x \<le> 0 \<Longrightarrow> fl x \<le> 0"
proof -
  assume x: "x \<le> 0"
  have "x / grid x \<le> 0" using x grid_pos[of x] by (simp add: divide_nonpos_pos)
  then have "x / grid x < of_int 0 + 1 / 2" by linarith
  then have "rne (x / grid x) \<le> 0" by (rule rne_le)
  then have "of_int (rne (x / grid x)) * grid x \<le> 0"
    using grid_pos[of x] by (simp add: mult_le_0_iff)
  then show ?thesis by (simp add: fl_grid)
qed

lemma fl_lower:
  assumes "0 < x" "- 1022 \<le> binade x"
  shows "pow2 (binade x) \<le> fl x"
proof -
  have g: "grid x = pow2 (binade x - 52)" using assms(2) by (simp add: grid_def max_def)
  have "pow2 (binade x) \<le> x" using binade_bounds(1)[of x] assms(1) by simp
  then have "pow2 (binade x) / grid x \<le> x / grid x"
    by (rule div_grid_mono)
  moreover have "pow2 (binade x) / grid x = of_int (2 ^ 52)"
    using pow2_split52[of "binade x"] unfolding g by simp
  ultimately have "rne (of_int (2 ^ 52)) \<le> rne (x / grid x)"
    by (intro rne_mono) simp
  then have "(2 ^ 52 :: int) \<le> rne (x / grid x)" by (simp only: rne_int)
  then have "(of_int (2 ^ 52) :: real) \<le> of_int (rne (x / grid x))" by (simp only: of_int_le_iff)
  then have "of_int (2 ^ 52) * grid x \<le> of_int (rne (x / grid x)) * grid x"
    by (rule mult_grid_mono)
  moreover have "of_int (2 ^ 52) * grid x = pow2 (binade x)"
    using pow2_split52[of "binade x"] unfolding g by simp
  ultimately have "pow2 (binade x) \<le> of_int (rne (x / grid x)) * grid x"
    by (simp only:)
  moreover have "fl x = of_int (rne (x / grid x)) * grid x"
    using assms(1) by (simp add: fl_grid)
  ultimately show ?thesis by (simp only:)
qed

lemma fl_upper:
  assumes "0 < x"
  shows "fl x \<le> pow2 (max (binade x) (- 1022) + 1)"
proof -
  let ?K = "max (binade x) (- 1022)"
  have g: "grid x = pow2 (?K - 52)" by (simp add: grid_def)
  have "x < pow2 (binade x + 1)" using binade_bounds(2)[of x] assms by simp
  also have "\<dots> \<le> pow2 (?K + 1)" by (intro pow2_mono) simp
  finally have "x \<le> pow2 (?K + 1)" by simp
  then have "x / grid x \<le> pow2 (?K + 1) / grid x"
    by (rule div_grid_mono)
  moreover have "pow2 (?K + 1) / grid x = of_int (2 ^ 53)"
    using pow2_split53[of ?K] unfolding g by simp
  ultimately have "rne (x / grid x) \<le> rne (of_int (2 ^ 53))"
    by (intro rne_mono) simp
  then have "rne (x / grid x) \<le> (2 ^ 53 :: int)" by (simp only: rne_int)
  then have "(of_int (rne (x / grid x)) :: real) \<le> of_int (2 ^ 53)" by (simp only: of_int_le_iff)
  then have "of_int (rne (x / grid x)) * grid x \<le> of_int (2 ^ 53) * grid x"
    by (rule mult_grid_mono)
  moreover have "of_int (2 ^ 53) * grid x = pow2 (?K + 1)"
    using pow2_split53[of ?K] unfolding g by simp
  ultimately have "of_int (rne (x / grid x)) * grid x \<le> pow2 (?K + 1)"
    by (simp only:)
  moreover have "fl x = of_int (rne (x / grid x)) * grid x"
    using assms(1) by (simp add: fl_grid)
  ultimately show ?thesis by (simp only:)
qed

lemma fl_mono:
  assumes "0 \<le> x" "x \<le> y"
  shows "fl x \<le> fl y"
proof (cases "x = 0")
  case True
  then show ?thesis using fl_nonneg[of y] assms by (simp add: fl_grid)
next
  case False
  then have x: "0 < x" and y: "0 < y" using assms by auto
  let ?Kx = "max (binade x) (- 1022)" and ?Ky = "max (binade y) (- 1022)"
  have K: "?Kx \<le> ?Ky" using binade_mono[OF x assms(2)] by simp
  show ?thesis
  proof (cases "?Kx = ?Ky")
    case True
    then have g: "grid x = grid y" by (simp add: grid_def)
    have "x / grid y \<le> y / grid y" using assms(2) by (rule div_grid_mono)
    then have "rne (x / grid y) \<le> rne (y / grid y)" by (rule rne_mono)
    then have "(of_int (rne (x / grid y)) :: real) \<le> of_int (rne (y / grid y))" by simp
    then have "of_int (rne (x / grid y)) * grid y \<le> of_int (rne (y / grid y)) * grid y"
      by (rule mult_grid_mono)
    moreover have "fl x = of_int (rne (x / grid y)) * grid y"
      using x g by (simp add: fl_grid)
    moreover have "fl y = of_int (rne (y / grid y)) * grid y"
      using y by (simp add: fl_grid)
    ultimately show ?thesis by (simp only:)
  next
    case False
    then have lt: "?Kx < ?Ky" using K by linarith
    have ky: "- 1022 \<le> binade y" "?Ky = binade y"
      using lt by (auto simp: max_def split: if_splits)
    have "fl x \<le> pow2 (?Kx + 1)" by (rule fl_upper[OF x])
    also have "\<dots> \<le> pow2 (binade y)"
    proof (rule pow2_mono)
      show "?Kx + 1 \<le> binade y" using lt ky(2) by linarith
    qed
    also have "\<dots> \<le> fl y" by (rule fl_lower[OF y ky(1)])
    finally show ?thesis .
  qed
qed

text \<open>Below \<open>pow2 52\<close> the grid is a negative power of two, so the halves are on it.\<close>

lemma grid_small:
  assumes "0 < y" "y < pow2 52"
  shows "\<exists>j. 1 \<le> j \<and> grid y * 2 ^ j = 1"
proof -
  let ?K = "max (binade y) (- 1022)"
  have "pow2 (binade y) \<le> y" using binade_bounds(1)[of y] assms(1) by simp
  then have "pow2 (binade y) < pow2 52" using assms(2) by simp
  then have "binade y < 52" by (simp only: pow2_less_iff)
  then have K: "?K \<le> 51" by simp
  have "pow2 (?K - 52) * pow2 (52 - ?K) = 1"
    using pow2_add[of "?K - 52" "52 - ?K"] by simp
  moreover have "pow2 (52 - ?K) = 2 ^ nat (52 - ?K)" using K by (simp add: pow2_def)
  ultimately have "grid y * 2 ^ nat (52 - ?K) = 1" by (simp add: grid_def)
  moreover have "1 \<le> nat (52 - ?K)" using K by simp
  ultimately show ?thesis by blast
qed

lemma half_exact:
  assumes "0 < n" "of_int n / 2 < pow2 52"
  shows "fl (of_int n / 2) = of_int n / 2"
proof -
  let ?r = "of_int n / 2 :: real"
  have r: "0 < ?r" using assms(1) by simp
  from grid_small[OF r assms(2)] obtain j where j: "1 \<le> j" "grid ?r * 2 ^ j = 1" by blast
  have "?r / grid ?r = ?r * (grid ?r * 2 ^ j) / grid ?r" using j(2) by simp
  also have "\<dots> = ?r * 2 ^ j" by simp
  also have "\<dots> = of_int n * 2 ^ (j - 1)"
    using j(1) by (cases j) simp_all
  also have "\<dots> = of_int (n * 2 ^ (j - 1))" by simp
  finally show ?thesis by (rule fl_exact)
qed

lemma int_exact:
  assumes "0 < n" "of_int n < pow2 52"
  shows "fl (of_int n) = of_int n"
proof -
  have "fl (of_int (2 * n) / 2) = of_int (2 * n) / 2"
    using assms by (intro half_exact) simp_all
  then show ?thesis by simp
qed

text \<open>A value that is its own rounding is a multiple of the grid of every binade below it.\<close>

lemma representable_multiple:
  assumes "fl x = x" "0 < x" "pow2 j \<le> x" "- 1022 \<le> j"
  shows "\<exists>m. x = of_int m * pow2 (j - 52)"
proof -
  let ?K = "max (binade x) (- 1022)"
  have "pow2 j < pow2 (binade x + 1)" using binade_bounds(2)[of x] assms(2,3) by simp
  then have "j < binade x + 1" by (simp only: pow2_less_iff)
  then have jK: "j \<le> ?K" by simp
  have "pow2 (?K - 52) = pow2 (?K - j) * pow2 (j - 52)"
    using pow2_add[of "?K - j" "j - 52"] by simp
  moreover have "pow2 (?K - j) = of_int (2 ^ nat (?K - j))" using jK by (simp add: pow2_def)
  ultimately have g: "grid x = of_int (2 ^ nat (?K - j)) * pow2 (j - 52)"
    by (simp add: grid_def)
  have "x = of_int (rne (x / grid x)) * grid x"
    using assms(1,2) by (simp add: fl_grid)
  then have "x = of_int (rne (x / grid x) * 2 ^ nat (?K - j)) * pow2 (j - 52)"
    unfolding g by (simp add: mult.assoc)
  then show ?thesis by blast
qed


lemma rne_shift: "even k \<Longrightarrow> rne (z + of_int k) = rne z + k"
  by (simp add: rne_def Let_def)

lemma grid_binade:
  assumes "pow2 k \<le> x" "x < pow2 (k + 1)" "- 1022 \<le> k"
  shows "grid x = pow2 (k - 52)"
proof -
  have "0 < x" using assms(1) pow2_pos[of k] by linarith
  then have "binade x = k" using assms(1,2) by (intro binade_unique) simp_all
  then show ?thesis using assms(3) by (simp add: grid_def)
qed

lemma fl_geI:
  assumes "0 < x" "m \<le> rne (x / grid x)"
  shows "of_int m * grid x \<le> fl x"
proof -
  have "(of_int m :: real) \<le> of_int (rne (x / grid x))" using assms(2) by (simp only: of_int_le_iff)
  then have "of_int m * grid x \<le> of_int (rne (x / grid x)) * grid x" by (rule mult_grid_mono)
  moreover have "fl x = of_int (rne (x / grid x)) * grid x" using assms(1) by (simp add: fl_grid)
  ultimately show ?thesis by (simp only:)
qed

lemma fl_geD:
  assumes "0 < x" "of_int m * grid x \<le> fl x"
  shows "m \<le> rne (x / grid x)"
proof -
  have "fl x = of_int (rne (x / grid x)) * grid x" using assms(1) by (simp add: fl_grid)
  then have "of_int m * grid x \<le> of_int (rne (x / grid x)) * grid x" using assms(2) by (simp only:)
  then have "(of_int m :: real) \<le> of_int (rne (x / grid x))"
    using grid_pos[of x] by (simp only: mult_le_cancel_right_pos)
  then show ?thesis by (simp only: of_int_le_iff)
qed

lemma half_on_grid:
  assumes "0 < x" "x < pow2 52"
  shows "\<exists>m. of_int n / 2 = of_int m * grid x"
proof -
  from grid_small[OF assms] obtain j where j: "1 \<le> j" "grid x * 2 ^ j = 1" by blast
  have "of_int n / 2 = (of_int n / 2) * (grid x * 2 ^ j)" using j(2) by simp
  also have "\<dots> = (of_int n / 2 * 2 ^ j) * grid x" by simp
  also have "of_int n / 2 * 2 ^ j = (of_int (n * 2 ^ (j - 1)) :: real)"
    using j(1) by (cases j) simp_all
  finally show ?thesis by blast
qed

lemma even_on_grid:
  assumes "0 < x" "x < pow2 52"
  shows "\<exists>k. even k \<and> of_int n = of_int k * grid x"
proof -
  from grid_small[OF assms] obtain j where j: "1 \<le> j" "grid x * 2 ^ j = 1" by blast
  have "of_int n = of_int n * (grid x * 2 ^ j)" using j(2) by simp
  also have "\<dots> = (of_int n * 2 ^ j) * grid x" by simp
  also have "of_int n * 2 ^ j = (of_int (n * 2 ^ j) :: real)" by simp
  finally have "of_int n = of_int (n * 2 ^ j) * grid x" .
  moreover have "even (n * 2 ^ j)" using j(1) by simp
  ultimately show ?thesis by blast
qed

text \<open>A half-integer reached by rounding is still reached ten further on.\<close>

lemma fl_shift10:
  assumes y: "0 < y" "y + 10 < pow2 52" and a: "1 \<le> a" and r: "of_int a - 1 / 2 \<le> fl y"
  shows "of_int a + 19 / 2 \<le> fl (y + 10)"
proof (cases "of_int a + 19 / 2 \<le> y + 10")
  case True
  have h: "of_int (2 * a + 19) / 2 = of_int a + 19 / (2::real)" by simp
  have "fl (of_int (2 * a + 19) / 2) = of_int (2 * a + 19) / 2"
  proof (rule half_exact)
    show "0 < 2 * a + 19" using a by simp
    show "of_int (2 * a + 19) / 2 < pow2 52" using h True y(2) by linarith
  qed
  then have e: "fl (of_int a + 19 / 2) = of_int a + 19 / 2" unfolding h .
  have "fl (of_int a + 19 / 2) \<le> fl (y + 10)"
    using True a by (intro fl_mono) simp_all
  then show ?thesis unfolding e .
next
  case False
  then have lt: "y < of_int a - 1 / 2" by simp
  have y52: "y < pow2 52" using y(2) by simp
  have y10: "0 < y + 10" using y(1) by simp
  have ha: "of_int (2 * a - 1) / 2 = of_int a - 1 / (2::real)" by simp
  have hb: "of_int (2 * a + 19) / 2 = of_int a + 19 / (2::real)" by simp
  from half_on_grid[OF y(1) y52, of "2 * a - 1"]
  obtain m where "of_int (2 * a - 1) / 2 = of_int m * grid y" by blast
  then have m: "of_int a - 1 / 2 = of_int m * grid y" unfolding ha .
  from half_on_grid[OF y10 y(2), of "2 * a + 19"]
  obtain m' where "of_int (2 * a + 19) / 2 = of_int m' * grid (y + 10)" by blast
  then have m': "of_int a + 19 / 2 = of_int m' * grid (y + 10)" unfolding hb .
  from even_on_grid[OF y(1) y52, of 10]
  obtain k where k: "even k" "of_int 10 = of_int k * grid y" by blast
  have "m \<le> rne (y / grid y)"
    using r unfolding m by (rule fl_geD[OF y(1)])
  then have low: "of_int m - 1 / 2 \<le> y / grid y" by (rule rne_ge_D)
  have gy: "of_int a - 1 / 2 - grid y / 2 \<le> y"
  proof -
    have "(of_int m - 1 / 2) * grid y \<le> y / grid y * grid y"
      using low by (rule mult_grid_mono)
    then show ?thesis unfolding m by (simp add: algebra_simps)
  qed
  from grid_ratio[of y "y + 10"] y(1)
  obtain n where n: "grid (y + 10) = 2 ^ n * grid y" by auto
  show ?thesis
  proof (cases n)
    case 0
    then have g: "grid (y + 10) = grid y" using n by simp
    have "10 / grid y = of_int k * grid y / grid y" using k(2) by simp
    then have "10 / grid y = of_int k" by simp
    then have "(y + 10) / grid y = y / grid y + of_int k"
      by (simp add: add_divide_distrib)
    then have "rne ((y + 10) / grid y) = rne (y / grid y) + k"
      using k(1) by (simp add: rne_shift)
    then have "m + k \<le> rne ((y + 10) / grid (y + 10))"
      using \<open>m \<le> rne (y / grid y)\<close> g by simp
    then have "of_int (m + k) * grid (y + 10) \<le> fl (y + 10)"
      by (rule fl_geI[OF y10])
    moreover have "of_int (m + k) * grid (y + 10) = of_int a + 19 / 2"
    proof -
      have "of_int (m + k) * grid y = of_int m * grid y + of_int k * grid y"
        by (simp add: algebra_simps)
      also have "\<dots> = of_int a - 1 / 2 + 10" using m k(2) by simp
      finally show ?thesis unfolding g by simp
    qed
    ultimately show ?thesis by (simp only:)
  next
    case (Suc n')
    have "2 * grid y \<le> grid (y + 10)"
    proof -
      have "(2::real) \<le> 2 ^ n" unfolding Suc by simp
      then have "2 * grid y \<le> 2 ^ n * grid y" by (rule mult_grid_mono)
      then show ?thesis unfolding n .
    qed
    then have "of_int a + 19 / 2 - grid (y + 10) / 2 < y + 10"
      using gy grid_pos[of y] by linarith
    then have "of_int m' * grid (y + 10) - grid (y + 10) / 2 < y + 10"
      unfolding m' .
    then have "(of_int m' - 1 / 2) * grid (y + 10) < y + 10"
      by (simp add: algebra_simps)
    then have "of_int m' - 1 / 2 < (y + 10) / grid (y + 10)"
      using grid_pos[of "y + 10"] by (simp only: pos_less_divide_eq)
    then have "m' \<le> rne ((y + 10) / grid (y + 10))" by (rule rne_ge)
    then have "of_int m' * grid (y + 10) \<le> fl (y + 10)" by (rule fl_geI[OF y10])
    then show ?thesis unfolding m' .
  qed
qed


lemma tenths_lower: "of_int (tenths x) - 1 / 2 \<le> fl (x * 10)"
proof -
  have "of_int \<lfloor>fl (x * 10) + 1 / 2\<rfloor> \<le> fl (x * 10) + 1 / 2" by (rule of_int_floor_le)
  then show ?thesis unfolding tenths_def by linarith
qed

lemma tenths_geI:
  assumes "of_int a - 1 / 2 \<le> fl (x * 10)"
  shows "a \<le> tenths x"
proof -
  have "of_int a \<le> fl (x * 10) + 1 / 2" using assms by simp
  then show ?thesis unfolding tenths_def by (simp only: le_floor_iff)
qed

lemma tenths_nonneg: "0 \<le> x \<Longrightarrow> 0 \<le> tenths x"
proof -
  assume "0 \<le> x"
  then have "0 \<le> fl (x * 10)" by (intro fl_nonneg) simp
  then show ?thesis by (intro tenths_geI) simp
qed

lemma fl_10: "fl 10 = 10"
  using int_exact[of 10] by (simp add: pow2_def)

lemma tenths_far:
  assumes "0 \<le> s" "s + 1 \<le> e" "e < pow2 48"
  shows "tenths s + 10 \<le> tenths e"
proof -
  let ?a = "tenths s"
  have e52: "e * 10 < pow2 52"
  proof -
    have "e * 10 < pow2 48 * 10" using assms(3) by simp
    also have "\<dots> \<le> pow2 52" by (simp add: pow2_def)
    finally show ?thesis .
  qed
  have a0: "0 \<le> ?a" using assms(1) by (rule tenths_nonneg)
  show ?thesis
  proof (cases "?a = 0")
    case True
    have "fl 10 \<le> fl (e * 10)" using assms(1,2) by (intro fl_mono) simp_all
    then have "of_int 10 - 1 / 2 \<le> fl (e * 10)" unfolding fl_10 by simp
    then have "10 \<le> tenths e" by (rule tenths_geI)
    then show ?thesis using True by simp
  next
    case False
    then have a1: "1 \<le> ?a" using a0 by simp
    have r: "of_int ?a - 1 / 2 \<le> fl (s * 10)" by (rule tenths_lower)
    have spos: "0 < s * 10"
    proof (rule ccontr)
      assume "\<not> 0 < s * 10"
      then have "s * 10 = 0" using assms(1) by simp
      then have "fl (s * 10) = 0" by (simp add: fl_grid)
      then show False using r a1 by simp
    qed
    have s52: "s * 10 + 10 < pow2 52" using assms(2) e52 by linarith
    have "of_int ?a + 19 / 2 \<le> fl (s * 10 + 10)"
      using spos s52 a1 r by (rule fl_shift10)
    also have "\<dots> \<le> fl (e * 10)" using assms(2) spos by (intro fl_mono) simp_all
    finally have "of_int (?a + 10) - 1 / 2 \<le> fl (e * 10)" by simp
    then show ?thesis by (rule tenths_geI)
  qed
qed


lemma fl_half_reached:
  assumes "0 < y" "y < pow2 52" "of_int n / 2 \<le> fl y"
  shows "of_int n / 2 - grid y / 2 \<le> y"
proof -
  from half_on_grid[OF assms(1,2), of n]
  obtain m where m: "of_int n / 2 = of_int m * grid y" by blast
  have "m \<le> rne (y / grid y)"
    using assms(3) unfolding m by (rule fl_geD[OF assms(1)])
  then have "of_int m - 1 / 2 \<le> y / grid y" by (rule rne_ge_D)
  then have "(of_int m - 1 / 2) * grid y \<le> y / grid y * grid y"
    by (rule mult_grid_mono)
  then have "of_int m * grid y - grid y / 2 \<le> y" by (simp add: algebra_simps)
  then show ?thesis unfolding m .
qed

text \<open>A difference below one that rounds to one.\<close>

lemma fl_ge_one:
  assumes "x < 1" "1 \<le> fl x"
  shows "1 - 1 / 2 ^ 54 \<le> x"
proof -
  have xpos: "0 < x"
  proof (rule ccontr)
    assume "\<not> 0 < x"
    then have "fl x \<le> 0" by (intro fl_nonpos) simp
    then show False using assms(2) by simp
  qed
  let ?K = "max (binade x) (- 1022)"
  have "pow2 (binade x) \<le> x" using binade_bounds(1)[of x] xpos by simp
  then have "pow2 (binade x) < pow2 0" using assms(1) by simp
  then have "binade x < 0" by (simp only: pow2_less_iff)
  then have K: "?K \<le> - 1" by simp
  have g: "grid x = pow2 (?K - 52)" by (simp add: grid_def)
  have "pow2 (52 - ?K) * pow2 (?K - 52) = 1"
    using pow2_add[of "52 - ?K" "?K - 52"] by simp
  moreover have "pow2 (52 - ?K) = of_int (2 ^ nat (52 - ?K))" using K by (simp add: pow2_def)
  ultimately have one: "of_int (2 ^ nat (52 - ?K)) * grid x = 1" unfolding g by (simp only:)
  have "of_int (2 ^ nat (52 - ?K)) * grid x \<le> fl x" unfolding one by (rule assms(2))
  then have "2 ^ nat (52 - ?K) \<le> rne (x / grid x)" by (rule fl_geD[OF xpos])
  then have "of_int (2 ^ nat (52 - ?K)) - 1 / 2 \<le> x / grid x" by (rule rne_ge_D)
  then have "(of_int (2 ^ nat (52 - ?K)) - 1 / 2) * grid x \<le> x / grid x * grid x"
    by (rule mult_grid_mono)
  then have "of_int (2 ^ nat (52 - ?K)) * grid x - grid x / 2 \<le> x"
    by (simp add: algebra_simps)
  then have "1 - grid x / 2 \<le> x" unfolding one .
  moreover have "grid x \<le> pow2 (- 53)" unfolding g using K by (intro pow2_mono) simp
  moreover have "pow2 (- 53) / 2 = 1 / 2 ^ 54" by (simp add: pow2_def)
  ultimately show ?thesis by linarith
qed

lemma multiple_53:
  assumes "fl x = x" "1 / 2 \<le> x"
  shows "\<exists>m. x = of_int m / 2 ^ 53"
proof -
  have "\<exists>m. x = of_int m * pow2 (- 1 - 52)"
    using assms by (intro representable_multiple) (simp_all add: pow2_def)
  then obtain m where "x = of_int m * pow2 (- 53)" by auto
  then have "x = of_int m / 2 ^ 53" by (simp add: pow2_def)
  then show ?thesis by blast
qed

lemma multiple_52:
  assumes "fl x = x" "1 \<le> x"
  shows "\<exists>m. x = of_int m / 2 ^ 52"
proof -
  have "\<exists>m. x = of_int m * pow2 (0 - 52)"
    using assms by (intro representable_multiple) (simp_all add: pow2_def)
  then obtain m where "x = of_int m * pow2 (- 52)" by auto
  then have "x = of_int m / 2 ^ 52" by (simp add: pow2_def)
  then show ?thesis by blast
qed

lemma near_start:
  assumes "fl s = s" "fl e = e" "0 \<le> s" "e - s < 1" "1 - 1 / 2 ^ 54 \<le> e - s"
  shows "s < 1 / 2"
proof (rule ccontr)
  assume "\<not> s < 1 / 2"
  then have s: "1 / 2 \<le> s" by simp
  then have e: "1 / 2 \<le> e" using assms(5) by simp
  from multiple_53[OF assms(1) s] obtain ms where ms: "s = of_int ms / 2 ^ 53" by blast
  from multiple_53[OF assms(2) e] obtain me where me: "e = of_int me / 2 ^ 53" by blast
  have d: "e - s = of_int (me - ms) / 2 ^ 53" unfolding ms me by (simp add: diff_divide_distrib)
  have "of_int (me - ms) / (2 ^ 53 :: real) < 1" using assms(4) unfolding d .
  then have "(of_int (me - ms) :: real) < 2 ^ 53" by simp
  then have "me - ms < 2 ^ 53" by (simp only: of_int_less_numeral_power_cancel_iff)
  then have "me - ms \<le> 2 ^ 53 - 1" by simp
  then have "(of_int (me - ms) :: real) \<le> of_int (2 ^ 53 - 1)" by (simp only: of_int_le_iff)
  then have "(of_int (me - ms) :: real) \<le> 2 ^ 53 - 1" by simp
  then have "of_int (me - ms) / (2 ^ 53 :: real) \<le> (2 ^ 53 - 1) / 2 ^ 53"
    by (simp add: divide_right_mono)
  then have "e - s \<le> (2 ^ 53 - 1) / 2 ^ 53" unfolding d .
  then show False using assms(5) by simp
qed

lemma near_end:
  assumes "fl e = e" "0 \<le> s" "1 - 1 / 2 ^ 54 \<le> e - s"
  shows "1 \<le> e"
proof (rule ccontr)
  assume "\<not> 1 \<le> e"
  then have e1: "e < 1" by simp
  have e: "1 / 2 \<le> e" using assms(2,3) by simp
  from multiple_53[OF assms(1) e] obtain me where me: "e = of_int me / 2 ^ 53" by blast
  have "of_int me / (2 ^ 53 :: real) < 1" using e1 unfolding me .
  then have "(of_int me :: real) < 2 ^ 53" by simp
  then have "me < 2 ^ 53" by (simp only: of_int_less_numeral_power_cancel_iff)
  then have "me \<le> 2 ^ 53 - 1" by simp
  then have "(of_int me :: real) \<le> of_int (2 ^ 53 - 1)" by (simp only: of_int_le_iff)
  then have "(of_int me :: real) \<le> 2 ^ 53 - 1" by simp
  then have "of_int me / (2 ^ 53 :: real) \<le> (2 ^ 53 - 1) / 2 ^ 53"
    by (simp add: divide_right_mono)
  then have "e \<le> (2 ^ 53 - 1) / 2 ^ 53" unfolding me .
  then show False using assms(2,3) by simp
qed

lemma grid_5: "grid 5 = pow2 (- 50)"
  using grid_binade[of 2 5] by (simp add: pow2_def)

lemma tenths_near:
  assumes "fl s = s" "fl e = e" "0 \<le> s" "e - s < 1" "1 \<le> fl (e - s)"
  shows "tenths s + 10 \<le> tenths e"
proof -
  let ?a = "tenths s"
  have d: "1 - 1 / 2 ^ 54 \<le> e - s" using assms(4,5) by (rule fl_ge_one)
  have s2: "s < 1 / 2" using assms(1,2,3,4) d by (rule near_start)
  have e1: "1 \<le> e" using assms(2,3) d by (rule near_end)
  from multiple_52[OF assms(2) e1] obtain me where me: "e = of_int me / 2 ^ 52" by blast
  have a0: "0 \<le> ?a" using assms(3) by (rule tenths_nonneg)
  have e15: "e < 3 / 2" using s2 assms(4) by linarith
  have g': "grid (e * 10) = pow2 (- 49)"
    using grid_binade[of 3 "e * 10"] e1 e15 by (simp add: pow2_def)
  have e52: "e * 10 < pow2 52" using e15 by (simp add: pow2_def)
  have epos: "0 < e * 10" using e1 by simp
  have hb: "of_int (2 * ?a + 19) / 2 = of_int ?a + 19 / (2::real)" by simp
  have "of_int ?a + 19 / 2 \<le> fl (e * 10)"
  proof (cases "of_int ?a + 19 / 2 \<le> e * 10")
    case True
    have "fl (of_int (2 * ?a + 19) / 2) = of_int (2 * ?a + 19) / 2"
    proof (rule half_exact)
      show "0 < 2 * ?a + 19" using a0 by simp
      show "of_int (2 * ?a + 19) / 2 < pow2 52" using hb True e52 by linarith
    qed
    then have x: "fl (of_int ?a + 19 / 2) = of_int ?a + 19 / 2" unfolding hb .
    have "fl (of_int ?a + 19 / 2) \<le> fl (e * 10)"
      using True a0 by (intro fl_mono) simp_all
    then show ?thesis unfolding x .
  next
    case False
    have a1: "1 \<le> ?a"
    proof (rule ccontr)
      assume "\<not> 1 \<le> ?a"
      then have "?a = 0" using a0 by simp
      then show False using False e1 by simp
    qed
    have r: "of_int ?a - 1 / 2 \<le> fl (s * 10)" by (rule tenths_lower)
    have spos: "0 < s * 10"
    proof (rule ccontr)
      assume "\<not> 0 < s * 10"
      then have "s * 10 = 0" using assms(3) by simp
      then have "fl (s * 10) = 0" by (simp add: fl_grid)
      then show False using r a1 by simp
    qed
    have s5: "s * 10 \<le> 5" using s2 by simp
    have gs: "grid (s * 10) \<le> pow2 (- 50)"
      using grid_mono[OF spos s5] unfolding grid_5 .
    have s52: "s * 10 < pow2 52" using s5 by (simp add: pow2_def)
    have ha: "of_int (2 * ?a - 1) / 2 = of_int ?a - 1 / (2::real)" by simp
    have "of_int (2 * ?a - 1) / 2 \<le> fl (s * 10)" unfolding ha by (rule r)
    then have "of_int (2 * ?a - 1) / 2 - grid (s * 10) / 2 \<le> s * 10"
      by (rule fl_half_reached[OF spos s52])
    then have "of_int ?a - 1 / 2 - grid (s * 10) / 2 \<le> s * 10" unfolding ha .
    moreover have "pow2 (- 50) / 2 = 1 / 2 ^ 51" by (simp add: pow2_def)
    ultimately have sl: "of_int ?a - 1 / 2 - 1 / 2 ^ 51 \<le> s * 10" using gs by linarith
    have el: "s * 10 + 10 - 10 / 2 ^ 54 \<le> e * 10" using d by simp
    let ?N = "(2 * ?a + 19) * 2 ^ 50 - 5 * me"
    have N: "of_int ?N / 2 ^ 51 = of_int ?a + 19 / 2 - e * 10"
      unfolding me by (simp add: field_simps)
    have "of_int ?a + 19 / 2 - e * 10 \<le> 1 / 2 ^ 51 + 10 / 2 ^ 54" using sl el by linarith
    then have "of_int ?N / (2 ^ 51 :: real) \<le> 1 / 2 ^ 51 + 10 / 2 ^ 54" unfolding N .
    then have "(of_int ?N :: real) \<le> 9 / 4" by (simp add: field_simps)
    then have "(of_int ?N :: real) < of_int 3" by simp
    then have "?N < 3" by (simp only: of_int_less_iff)
    then have "?N \<le> 2" by simp
    then have "(of_int ?N :: real) \<le> of_int 2" by (simp only: of_int_le_iff)
    then have "of_int ?N / (2 ^ 51 :: real) \<le> of_int 2 / 2 ^ 51" by (simp add: divide_right_mono)
    then have close: "of_int ?a + 19 / 2 - e * 10 \<le> 1 / 2 ^ 50" unfolding N by simp
    let ?m = "(2 * ?a + 19) * 2 ^ 48"
    have m: "of_int ?m * grid (e * 10) = of_int ?a + 19 / 2"
      unfolding g' by (simp add: pow2_def field_simps)
    have ev: "even ?m" by simp
    have "of_int ?m * grid (e * 10) - grid (e * 10) / 2 \<le> e * 10"
      unfolding m using close unfolding g' by (simp add: pow2_def)
    then have "(of_int ?m - 1 / 2) * grid (e * 10) \<le> e * 10" by (simp add: algebra_simps)
    then have "of_int ?m - 1 / 2 \<le> e * 10 / grid (e * 10)"
      using grid_pos[of "e * 10"] by (simp only: pos_le_divide_eq)
    then have "?m \<le> rne (e * 10 / grid (e * 10))" using ev by (rule rne_ge_even)
    then have "of_int ?m * grid (e * 10) \<le> fl (e * 10)" by (rule fl_geI[OF epos])
    then show ?thesis unfolding m .
  qed
  then have "of_int (?a + 10) - 1 / 2 \<le> fl (e * 10)" by simp
  then show ?thesis by (rule tenths_geI)
qed

lemma tenths_gap:
  assumes "fl s = s" "fl e = e" "0 \<le> s" "e < pow2 48" "1 \<le> fl (e - s)"
  shows "tenths s + 10 \<le> tenths e"
proof (cases "e - s < 1")
  case True
  then show ?thesis using assms by (intro tenths_near) simp_all
next
  case False
  then have "s + 1 \<le> e" by simp
  then show ?thesis using assms(3,4) by (intro tenths_far) simp_all
qed

text \<open>A time is its own double, and the rounded bound is the double next to a count of tenths.\<close>

lemma one_le_pow2_1024: "1 \<le> pow2 1024"
  using pow2_mono[of 0 1024] by simp

lemma double_seconds:
  assumes "seconds (Fin t)"
  shows "double t = Fin t"
proof -
  have t: "fl t = t" "0 \<le> t" "t < pow2 48" using assms by (simp_all add: seconds_def)
  have "pow2 48 \<le> pow2 1024" by (rule pow2_mono) simp
  then have "t < pow2 1024" using t(3) by linarith
  then show ?thesis using t(1,2) pow2_pos[of 1024] by (simp add: double_def)
qed

lemma round_tenths:
  assumes "0 \<le> a" "a < pow2 48"
  shows "div10 (js_round (mul10 (Fin a))) = decimal (of_int (tenths a) / 10)"
proof -
  have "a * 10 < pow2 48 * 10" using assms(2) by simp
  also have "\<dots> \<le> of_int (2 ^ 52 - 1)" by (simp add: pow2_def)
  finally have "a * 10 \<le> of_int (2 ^ 52 - 1)" by simp
  then have "fl (a * 10) \<le> fl (of_int (2 ^ 52 - 1))"
    using assms(1) by (intro fl_mono) simp_all
  also have "\<dots> = of_int (2 ^ 52 - 1)" by (intro int_exact) (simp_all add: pow2_def)
  also have "\<dots> < pow2 52" by (simp add: pow2_def)
  also have "\<dots> \<le> pow2 1024" by (rule pow2_mono) simp
  finally have hi: "fl (a * 10) < pow2 1024" .
  have lo: "0 \<le> fl (a * 10)" using assms(1) by (intro fl_nonneg) simp
  have "double (a * 10) = Fin (fl (a * 10))"
    using hi lo pow2_pos[of 1024] by (simp add: double_def)
  then show ?thesis by (simp add: mul10_def js_round_def div10_def decimal_def tenths_def)
qed

lemma kept_interval:
  assumes "seconds (Fin a)" "seconds (Fin b)" "\<not> lt (sub (Fin b) (Fin a)) MIN_DURATION"
  shows "ge (sub (Fin b) (Fin a)) MIN_DURATION" "tenths a + 10 \<le> tenths b"
proof -
  have a: "fl a = a" "0 \<le> a" and b: "fl b = b" "b < pow2 48"
    using assms(1,2) by (simp_all add: seconds_def)
  show "ge (sub (Fin b) (Fin a)) MIN_DURATION"
    using assms(3) by (simp add: ge_def double_def Let_def MIN_DURATION_def)
  have "1 \<le> fl (b - a)"
    using assms(3) one_le_pow2_1024
    by (auto simp: lt_def double_def Let_def MIN_DURATION_def split: if_splits)
  then show "tenths a + 10 \<le> tenths b"
    using a b by (intro tenths_gap) simp_all
qed


text \<open>
  Claim C8, as the code runs it. The times being doubles that are not negative, every
  interval that leaves the merge loop has \<open>end - start >= MIN_DURATION\<close> in the arithmetic
  of the loop, and its bounds in the response are the doubles next to \<open>i / 10\<close> and \<open>j / 10\<close>
  for two counts of tenths with \<open>i + 10 \<le> j\<close>: read to one decimal, as they are printed,
  the bounds are at least one second apart. The exception is the single interval from 0
  to the end of a video that is shorter than \<open>MIN_DURATION\<close>. The loop is not run again on
  the rounded bounds, and the theorem says nothing of their difference as doubles.
\<close>

theorem scene_min_duration:
  "\<forall>t \<in> set ptsTimes. seconds t \<Longrightarrow> seconds totalSeconds \<Longrightarrow>
   s \<in> set (merge_loop (raw_segments (coalesce [Fin 0] ptsTimes) totalSeconds)) \<Longrightarrow>
     smart_analyze ptsTimes totalSeconds
       = map round_scene (merge_loop (raw_segments (coalesce [Fin 0] ptsTimes) totalSeconds))
     \<and> ((ge (sub (s_end s) (s_start s)) MIN_DURATION
          \<and> (\<exists>i j. round_scene s = \<lparr>s_start = decimal (of_int i / 10), s_end = decimal (of_int j / 10)\<rparr>
                 \<and> i + 10 \<le> j))
        \<or> (lt totalSeconds MIN_DURATION
            \<and> merge_loop (raw_segments (coalesce [Fin 0] ptsTimes) totalSeconds)
                = [\<lparr>s_start = Fin 0, s_end = totalSeconds\<rparr>]))"
proof -
  assume fin: "\<forall>t \<in> set ptsTimes. seconds t" and tot: "seconds totalSeconds"
  define merged where "merged = merge_loop (raw_segments (coalesce [Fin 0] ptsTimes) totalSeconds)"
  assume "s \<in> set (merge_loop (raw_segments (coalesce [Fin 0] ptsTimes) totalSeconds))"
  then have s: "s \<in> set merged" by (simp add: merged_def)
  let ?S = "insert totalSeconds (set (coalesce [Fin 0] ptsTimes))"
  have ch: "chained totalSeconds merged"
    unfolding merged_def
    by (intro merge_loop_chained raw_segments_chained) (simp_all add: coalesce_hd)
  have "bounds_in ?S merged"
    unfolding merged_def by (intro merge_loop_bounds raw_segments_bounds)
  then have b: "s_start s \<in> ?S" "s_end s \<in> ?S"
    using s by (auto simp: bounds_in_def)
  have zero: "seconds (Fin 0)" by (simp add: seconds_def fl_def)
  have "seconds x" if "x \<in> ?S" for x
    using that fin tot zero coalesce_set[of "[Fin 0]" ptsTimes] by auto
  then have sec: "seconds (s_start s)" "seconds (s_end s)" using b by auto
  then obtain a b where ab: "s_start s = Fin a" "s_end s = Fin b"
    by (cases "s_start s"; cases "s_end s") (simp_all add: seconds_def)
  have bounds: "0 \<le> a" "a < pow2 48" "0 \<le> b" "b < pow2 48"
    using sec unfolding ab by (simp_all add: seconds_def)
  have rounded: "round_scene s
      = \<lparr>s_start = decimal (of_int (tenths a) / 10), s_end = decimal (of_int (tenths b) / 10)\<rparr>"
    using round_tenths[OF bounds(1,2)] round_tenths[OF bounds(3,4)]
    by (simp add: round_scene_def ab)
  have kept: "ge (sub (s_end s) (s_start s)) MIN_DURATION
      \<and> (\<exists>i j. round_scene s = \<lparr>s_start = decimal (of_int i / 10), s_end = decimal (of_int j / 10)\<rparr>
             \<and> i + 10 \<le> j)"
    if "\<not> lt (sub (s_end s) (s_start s)) MIN_DURATION"
  proof -
    have k: "ge (sub (Fin b) (Fin a)) MIN_DURATION" "tenths a + 10 \<le> tenths b"
      using kept_interval[of a b] sec that unfolding ab by simp_all
    show ?thesis using k rounded unfolding ab by blast
  qed
  have "(ge (sub (s_end s) (s_start s)) MIN_DURATION
          \<and> (\<exists>i j. round_scene s = \<lparr>s_start = decimal (of_int i / 10), s_end = decimal (of_int j / 10)\<rparr>
                 \<and> i + 10 \<le> j))
        \<or> (lt totalSeconds MIN_DURATION \<and> merged = [\<lparr>s_start = Fin 0, s_end = totalSeconds\<rparr>])"
  proof (cases "lt (sub (s_end s) (s_start s)) MIN_DURATION")
    case False
    then show ?thesis using kept by blast
  next
    case True
    have one: "length merged \<le> 1"
      using merge_loop_stops[of "raw_segments (coalesce [Fin 0] ptsTimes) totalSeconds"] s True
      by (auto simp: merged_def)
    then have single: "merged = [\<lparr>s_start = Fin 0, s_end = totalSeconds\<rparr>]"
      using chained_single[OF ch] by simp
    then have "s = \<lparr>s_start = Fin 0, s_end = totalSeconds\<rparr>" using s by simp
    then have "totalSeconds = Fin b" "a = 0" using ab by simp_all
    moreover have "double b = Fin b" using sec(2) unfolding ab by (rule double_seconds)
    ultimately have "lt totalSeconds MIN_DURATION" using True ab by simp
    then show ?thesis using single by simp
  qed
  then show ?thesis by (simp add: smart_analyze_def merged_def)
qed


text \<open>
  The theorem at work. A cut at 3.1 s in a video of 4.1 s: the second interval has
  \<open>4.1 - 3.1 = 0.9999999999999996\<close>, is merged, and the one interval from 0 to 4.1 is left,
  with 0 and 41 tenths. Cuts at 3.06 and 4.14 s in a video of 10 s: the interval between
  them is kept and its bounds become 3.1 and 4.1, 31 and 41 tenths. A cut at 0.4 s in a
  video of half a second: the single interval from 0 to 0.5 is the response.
\<close>

theorem scene_min_duration_witness:
  "seconds (decimal (31 / 10)) \<and> seconds (decimal (41 / 10))
   \<and> merge_loop (raw_segments (coalesce [Fin 0] [decimal (31 / 10)]) (decimal (41 / 10)))
       = [\<lparr>s_start = Fin 0, s_end = decimal (41 / 10)\<rparr>]
   \<and> smart_analyze [decimal (31 / 10)] (decimal (41 / 10)) = [\<lparr>s_start = Fin 0, s_end = decimal (41 / 10)\<rparr>]
   \<and> ge (sub (decimal (41 / 10)) (Fin 0)) MIN_DURATION
   \<and> seconds (decimal (153 / 50)) \<and> seconds (decimal (207 / 50)) \<and> seconds (Fin 10)
   \<and> merge_loop (raw_segments (coalesce [Fin 0] [decimal (153 / 50), decimal (207 / 50)]) (Fin 10))
       = [\<lparr>s_start = Fin 0, s_end = decimal (153 / 50)\<rparr>,
          \<lparr>s_start = decimal (153 / 50), s_end = decimal (207 / 50)\<rparr>,
          \<lparr>s_start = decimal (207 / 50), s_end = Fin 10\<rparr>]
   \<and> ge (sub (decimal (207 / 50)) (decimal (153 / 50))) MIN_DURATION
   \<and> round_scene \<lparr>s_start = decimal (153 / 50), s_end = decimal (207 / 50)\<rparr>
       = \<lparr>s_start = decimal (of_int 31 / 10), s_end = decimal (of_int 41 / 10)\<rparr>
   \<and> seconds (decimal (2 / 5)) \<and> seconds (decimal (1 / 2))
   \<and> lt (decimal (1 / 2)) MIN_DURATION
   \<and> merge_loop (raw_segments (coalesce [Fin 0] [decimal (2 / 5)]) (decimal (1 / 2)))
       = [\<lparr>s_start = Fin 0, s_end = decimal (1 / 2)\<rparr>]
   \<and> smart_analyze [decimal (2 / 5)] (decimal (1 / 2)) = [\<lparr>s_start = Fin 0, s_end = decimal (1 / 2)\<rparr>]"
proof -
  have f: "seconds (decimal (31 / 10))" "seconds (decimal (41 / 10))"
      "seconds (decimal (153 / 50))" "seconds (decimal (207 / 50))" "seconds (Fin 10)"
      "seconds (decimal (2 / 5))" "seconds (decimal (1 / 2))"
    by (simp_all add: seconds_def num_eval)
  have c1: "coalesce [Fin 0] [decimal (31 / 10)] = [Fin 0, decimal (31 / 10)]"
    by (simp add: num_eval)
  have r1: "raw_segments [Fin 0, decimal (31 / 10)] (decimal (41 / 10)) =
      [\<lparr>s_start = Fin 0, s_end = decimal (31 / 10)\<rparr>, \<lparr>s_start = decimal (31 / 10), s_end = decimal (41 / 10)\<rparr>]"
    by (simp add: raw_segments_def upt_rec num_eval)
  have m1: "merge_loop [\<lparr>s_start = Fin 0, s_end = decimal (31 / 10)\<rparr>,
        \<lparr>s_start = decimal (31 / 10), s_end = decimal (41 / 10)\<rparr>] = [\<lparr>s_start = Fin 0, s_end = decimal (41 / 10)\<rparr>]"
    by (simp add: merge_pass_def splice1_def MIN_DURATION_def num_eval)
  have one: "merge_loop (raw_segments (coalesce [Fin 0] [decimal (31 / 10)]) (decimal (41 / 10)))
       = [\<lparr>s_start = Fin 0, s_end = decimal (41 / 10)\<rparr>]"
    unfolding c1 r1 m1 ..
  have c2: "coalesce [Fin 0] [decimal (153 / 50), decimal (207 / 50)]
      = [Fin 0, decimal (153 / 50), decimal (207 / 50)]"
    by (simp add: num_eval)
  have r2: "raw_segments [Fin 0, decimal (153 / 50), decimal (207 / 50)] (Fin 10) =
      [\<lparr>s_start = Fin 0, s_end = decimal (153 / 50)\<rparr>, \<lparr>s_start = decimal (153 / 50), s_end = decimal (207 / 50)\<rparr>,
       \<lparr>s_start = decimal (207 / 50), s_end = Fin 10\<rparr>]"
    by (simp add: raw_segments_def upt_rec num_eval)
  have m2: "merge_loop [\<lparr>s_start = Fin 0, s_end = decimal (153 / 50)\<rparr>, \<lparr>s_start = decimal (153 / 50), s_end = decimal (207 / 50)\<rparr>,
       \<lparr>s_start = decimal (207 / 50), s_end = Fin 10\<rparr>]
      = [\<lparr>s_start = Fin 0, s_end = decimal (153 / 50)\<rparr>, \<lparr>s_start = decimal (153 / 50), s_end = decimal (207 / 50)\<rparr>,
       \<lparr>s_start = decimal (207 / 50), s_end = Fin 10\<rparr>]"
    by (simp add: merge_pass_def splice1_def MIN_DURATION_def num_eval)
  have two: "merge_loop (raw_segments (coalesce [Fin 0] [decimal (153 / 50), decimal (207 / 50)]) (Fin 10))
       = [\<lparr>s_start = Fin 0, s_end = decimal (153 / 50)\<rparr>,
          \<lparr>s_start = decimal (153 / 50), s_end = decimal (207 / 50)\<rparr>,
          \<lparr>s_start = decimal (207 / 50), s_end = Fin 10\<rparr>]"
    unfolding c2 r2 m2 ..
  have c3: "coalesce [Fin 0] [decimal (2 / 5)] = [Fin 0, decimal (2 / 5)]"
    by (simp add: num_eval)
  have r3: "raw_segments [Fin 0, decimal (2 / 5)] (decimal (1 / 2)) =
      [\<lparr>s_start = Fin 0, s_end = decimal (2 / 5)\<rparr>, \<lparr>s_start = decimal (2 / 5), s_end = decimal (1 / 2)\<rparr>]"
    by (simp add: raw_segments_def upt_rec num_eval)
  have m3: "merge_loop [\<lparr>s_start = Fin 0, s_end = decimal (2 / 5)\<rparr>,
        \<lparr>s_start = decimal (2 / 5), s_end = decimal (1 / 2)\<rparr>] = [\<lparr>s_start = Fin 0, s_end = decimal (1 / 2)\<rparr>]"
    by (simp add: merge_pass_def splice1_def MIN_DURATION_def num_eval)
  have three: "merge_loop (raw_segments (coalesce [Fin 0] [decimal (2 / 5)]) (decimal (1 / 2)))
       = [\<lparr>s_start = Fin 0, s_end = decimal (1 / 2)\<rparr>]"
    unfolding c3 r3 m3 ..
  have a1: "\<forall>t \<in> set [decimal (31 / 10)]. seconds t"
    using f by simp
  have a2: "\<forall>t \<in> set [decimal (153 / 50), decimal (207 / 50)]. seconds t"
    using f by simp
  have a3: "\<forall>t \<in> set [decimal (2 / 5)]. seconds t"
    using f by simp
  have s1: "\<lparr>s_start = Fin 0, s_end = decimal (41 / 10)\<rparr>
      \<in> set (merge_loop (raw_segments (coalesce [Fin 0] [decimal (31 / 10)]) (decimal (41 / 10))))"
    unfolding one by simp
  have s2: "\<lparr>s_start = decimal (153 / 50), s_end = decimal (207 / 50)\<rparr>
      \<in> set (merge_loop (raw_segments (coalesce [Fin 0] [decimal (153 / 50), decimal (207 / 50)]) (Fin 10)))"
    unfolding two by simp
  have s3: "\<lparr>s_start = Fin 0, s_end = decimal (1 / 2)\<rparr>
      \<in> set (merge_loop (raw_segments (coalesce [Fin 0] [decimal (2 / 5)]) (decimal (1 / 2))))"
    unfolding three by simp
  have r: "round_scene \<lparr>s_start = Fin 0, s_end = decimal (41 / 10)\<rparr> = \<lparr>s_start = Fin 0, s_end = decimal (41 / 10)\<rparr>"
      "round_scene \<lparr>s_start = decimal (153 / 50), s_end = decimal (207 / 50)\<rparr>
        = \<lparr>s_start = decimal (of_int 31 / 10), s_end = decimal (of_int 41 / 10)\<rparr>"
      "round_scene \<lparr>s_start = Fin 0, s_end = decimal (1 / 2)\<rparr> = \<lparr>s_start = Fin 0, s_end = decimal (1 / 2)\<rparr>"
    by (simp_all add: round_scene_def num_eval)
  have g: "ge (sub (decimal (41 / 10)) (Fin 0)) MIN_DURATION"
      "ge (sub (decimal (207 / 50)) (decimal (153 / 50))) MIN_DURATION"
      "lt (decimal (1 / 2)) MIN_DURATION"
    by (simp_all add: MIN_DURATION_def num_eval)
  note t1 = scene_min_duration [OF a1 f(2) s1]
  note t2 = scene_min_duration [OF a2 f(5) s2]
  note t3 = scene_min_duration [OF a3 f(7) s3]
  have e1: "smart_analyze [decimal (31 / 10)] (decimal (41 / 10)) = [\<lparr>s_start = Fin 0, s_end = decimal (41 / 10)\<rparr>]"
    using t1 unfolding one by (simp add: r)
  have e3: "smart_analyze [decimal (2 / 5)] (decimal (1 / 2)) = [\<lparr>s_start = Fin 0, s_end = decimal (1 / 2)\<rparr>]"
    using t3 unfolding three by (simp add: r)
  show ?thesis
    using f one two three g r e1 e3 t2 by simp
qed

text \<open>
  Cuts at 3.06 and 4.14 s in a video of 10 s. The interval between them is 1.08 s long
  and stays. Its bounds are rounded to 3.1 and 4.1, and \<open>4.1 - 3.1\<close> is
  \<open>0.9999999999999996\<close>: the interval of the response is below \<open>MIN_DURATION\<close> by the test
  of the merge loop itself.
\<close>

theorem scene_min_duration_counterexample:
  "smart_analyze [decimal (153 / 50), decimal (207 / 50)] (Fin 10) =
     [\<lparr>s_start = Fin 0, s_end = decimal (31 / 10)\<rparr>,
      \<lparr>s_start = decimal (31 / 10), s_end = decimal (41 / 10)\<rparr>,
      \<lparr>s_start = decimal (41 / 10), s_end = Fin 10\<rparr>]
   \<and> sub (decimal (41 / 10)) (decimal (31 / 10)) = Fin (1 - 1 / 2 ^ 51)
   \<and> lt (sub (decimal (41 / 10)) (decimal (31 / 10))) MIN_DURATION
   \<and> \<not> ge (sub (decimal (41 / 10)) (decimal (31 / 10))) MIN_DURATION"
proof -
  have cuts: "coalesce [Fin 0] [decimal (153 / 50), decimal (207 / 50)] = [Fin 0, decimal (153 / 50), decimal (207 / 50)]"
    by (simp add: num_eval)
  have raw: "raw_segments [Fin 0, decimal (153 / 50), decimal (207 / 50)] (Fin 10) =
       [\<lparr>s_start = Fin 0, s_end = decimal (153 / 50)\<rparr>, \<lparr>s_start = decimal (153 / 50), s_end = decimal (207 / 50)\<rparr>,
        \<lparr>s_start = decimal (207 / 50), s_end = Fin 10\<rparr>]"
    by (simp add: raw_segments_def upt_rec num_eval)
  have merged: "merge_loop [\<lparr>s_start = Fin 0, s_end = decimal (153 / 50)\<rparr>, \<lparr>s_start = decimal (153 / 50), s_end = decimal (207 / 50)\<rparr>,
        \<lparr>s_start = decimal (207 / 50), s_end = Fin 10\<rparr>] =
       [\<lparr>s_start = Fin 0, s_end = decimal (153 / 50)\<rparr>, \<lparr>s_start = decimal (153 / 50), s_end = decimal (207 / 50)\<rparr>,
        \<lparr>s_start = decimal (207 / 50), s_end = Fin 10\<rparr>]"
    by (simp add: merge_pass_def splice1_def MIN_DURATION_def num_eval)
  have rounded: "smart_analyze [decimal (153 / 50), decimal (207 / 50)] (Fin 10) =
     [\<lparr>s_start = Fin 0, s_end = decimal (31 / 10)\<rparr>,
      \<lparr>s_start = decimal (31 / 10), s_end = decimal (41 / 10)\<rparr>,
      \<lparr>s_start = decimal (41 / 10), s_end = Fin 10\<rparr>]"
    unfolding smart_analyze_def cuts raw merged
    by (simp add: round_scene_def num_eval)
  have d: "sub (decimal (41 / 10)) (decimal (31 / 10)) = Fin (1 - 1 / 2 ^ 51)"
    by (simp add: num_eval)
  have "lt (Fin (1 - 1 / 2 ^ 51)) MIN_DURATION" "\<not> ge (Fin (1 - 1 / 2 ^ 51)) MIN_DURATION"
    by (simp_all add: MIN_DURATION_def ge_def lt_def)
  then show ?thesis using rounded d by simp
qed

text \<open>
  When ffmpeg prints \<open>Duration: N/A\<close>, \<open>parseInt\<close> gives no number and \<open>totalSeconds\<close> is
  not a number. The last interval then has no end and no duration to compare; it is never
  merged, and a short interval before it is merged into it.
\<close>

lemma duration_not_a_number:
  "smart_analyze [Fin 5] NaN = [\<lparr>s_start = Fin 0, s_end = Fin 5\<rparr>, \<lparr>s_start = Fin 5, s_end = NaN\<rparr>]
   \<and> smart_analyze [decimal (1 / 2)] NaN = [\<lparr>s_start = Fin 0, s_end = NaN\<rparr>]
   \<and> \<not> lt (sub NaN (Fin 5)) MIN_DURATION \<and> \<not> ge (sub NaN (Fin 5)) MIN_DURATION"
proof -
  have a: "smart_analyze [Fin 5] NaN = [\<lparr>s_start = Fin 0, s_end = Fin 5\<rparr>, \<lparr>s_start = Fin 5, s_end = NaN\<rparr>]"
    by (simp add: smart_analyze_def raw_segments_def upt_rec merge_pass_def splice1_def
        MIN_DURATION_def round_scene_def num_eval)
  have b: "smart_analyze [decimal (1 / 2)] NaN = [\<lparr>s_start = Fin 0, s_end = NaN\<rparr>]"
    by (simp add: smart_analyze_def raw_segments_def upt_rec merge_pass_def splice1_def
        MIN_DURATION_def round_scene_def num_eval)
  show ?thesis using a b by (simp add: ge_def lt_def MIN_DURATION_def)
qed

section \<open>Properties of generation jobs\<close>

subsection \<open>The text chosen for a segment and a language\<close>

lemma render_texts_nth:
  "render_texts U upper tr lang k texts = Inr rendered \<Longrightarrow> i < length texts \<Longrightarrow>
     length rendered = length texts \<and> localized_text U upper tr (k + i) lang (texts ! i) = Inr (rendered ! i)"
proof (induction texts arbitrary: k rendered i)
  case Nil
  then show ?case by simp
next
  case (Cons source rest)
  from Cons.prems(1) obtain v vs where v: "localized_text U upper tr k lang source = Inr v"
    and vs: "render_texts U upper tr lang (Suc k) rest = Inr vs" and r: "rendered = v # vs"
    by (auto split: sum.splits)
  show ?case
  proof (cases i)
    case 0
    then show ?thesis using v r vs Cons.IH[OF vs] by (cases rest) (auto split: sum.splits)
  next
    case (Suc i')
    then have "i' < length rest" using Cons.prems(2) by simp
    from Cons.IH[OF vs this] show ?thesis using Suc r by simp
  qed
qed

lemma render_texts_total:
  "\<not> upper \<Longrightarrow> \<exists>rendered. render_texts U upper tr lang k texts = Inr rendered"
proof (induction texts arbitrary: k)
  case Nil
  then show ?case by simp
next
  case (Cons source rest)
  from Cons.IH[OF Cons.prems, of "Suc k"] obtain vs where "render_texts U upper tr lang (Suc k) rest = Inr vs" by blast
  then show ?case using Cons.prems by (simp add: localized_text_def Let_def)
qed

text \<open>
  Claim C2, as the code runs it. Where the translation reply has no usable entry for
  segment \<open>i\<close> and the language (the array is too short, the element is no object, the
  key is missing, the value is falsy, or nothing could be parsed at all), the text
  rendered for the pair is the segment's source text: as it is when the job's
  \<open>uppercase\<close> option is off, in upper case when it is on. A pair with a non-empty string
  entry gets that entry under the same option, whatever other pairs lack.
\<close>

theorem translation_fallback:
  "render_texts U upper translations lang 0 texts = Inr rendered \<Longrightarrow> i < length texts \<Longrightarrow>
     (translation_entry translations i lang = None \<or> translations = parsed_translations None \<longrightarrow>
        rendered ! i = JStr (if upper then toUpperCase U (texts ! i) else texts ! i))
     \<and> (\<forall>v. translation_entry translations i lang = Some v \<and> \<not> truthy v \<longrightarrow>
        rendered ! i = JStr (if upper then toUpperCase U (texts ! i) else texts ! i))
     \<and> (\<forall>s. translation_entry translations i lang = Some (JStr s) \<and> s \<noteq> [] \<longrightarrow>
        rendered ! i = JStr (if upper then toUpperCase U s else s))"
proof -
  assume r: "render_texts U upper translations lang 0 texts = Inr rendered" and i: "i < length texts"
  from render_texts_nth[OF r i]
  have "localized_text U upper translations i lang (texts ! i) = Inr (rendered ! i)"
    by simp
  then show ?thesis
    by (auto simp: localized_text_def parsed_translations_def translation_entry_def Let_def
             split: option.splits if_splits json.splits)
qed

text \<open>
  The theorem on the sample reply, which translates the first text into Croatian only:
  the Croatian video shows the translation and the untranslated second text, the Czech
  video shows both source texts.
\<close>

theorem translation_fallback_witness:
  "render_texts ascii False sample_reply (cps ''HR'') 0 [cps ''sale'', cps ''new'']
     = Inr [JStr (cps ''rasprodaja''), JStr (cps ''new'')]
   \<and> translation_entry sample_reply 0 (cps ''HR'') = Some (JStr (cps ''rasprodaja''))
   \<and> translation_entry sample_reply 1 (cps ''HR'') = None
   \<and> render_texts ascii False sample_reply (cps ''CZ'') 0 [cps ''sale'', cps ''new'']
     = Inr [JStr (cps ''sale''), JStr (cps ''new'')]
   \<and> translation_entry sample_reply 0 (cps ''CZ'') = None
   \<and> [JStr (cps ''sale''), JStr (cps ''new'')] ! 0 = JStr (cps ''sale'')"
proof -
  have hr: "render_texts ascii False sample_reply (cps ''HR'') 0 [cps ''sale'', cps ''new'']
     = Inr [JStr (cps ''rasprodaja''), JStr (cps ''new'')]"
    by (simp add: sample_reply_def localized_text_def translation_entry_def property_def cps_def Let_def)
  have cz: "render_texts ascii False sample_reply (cps ''CZ'') 0 [cps ''sale'', cps ''new'']
     = Inr [JStr (cps ''sale''), JStr (cps ''new'')]"
    by (simp add: sample_reply_def localized_text_def translation_entry_def property_def cps_def Let_def)
  have e0: "translation_entry sample_reply 0 (cps ''HR'') = Some (JStr (cps ''rasprodaja''))"
    by (simp add: sample_reply_def translation_entry_def property_def cps_def)
  have e1: "translation_entry sample_reply 1 (cps ''HR'') = None"
    by (simp add: sample_reply_def translation_entry_def)
  have e2: "translation_entry sample_reply 0 (cps ''CZ'') = None"
    by (simp add: sample_reply_def translation_entry_def property_def cps_def)
  show ?thesis
    using hr cz e0 e1 e2 translation_fallback [OF cz, of 0] by simp
qed

text \<open>
  With the \<open>uppercase\<close> option on and nothing parsed from the reply, the text rendered
  for a segment is not its source text as written.
\<close>

theorem translation_fallback_counterexample:
  "render_texts ascii True (parsed_translations None) (cps ''HR'') 0 [cps ''sale''] = Inr [JStr (cps ''SALE'')]
   \<and> translation_entry (parsed_translations None) 0 (cps ''HR'') = None
   \<and> JStr (cps ''SALE'') \<noteq> JStr (cps ''sale'')"
  by (simp add: parsed_translations_def localized_text_def translation_entry_def ascii_def cps_def Let_def)

subsection \<open>The order of the states\<close>

lemma deliver_status [simp]: "status (deliver e k j) = status j"
  by (simp add: deliver_def cancel_job_def)

lemma language_loop_statuses:
  "status j = Generating \<Longrightarrow> language_loop U e tr idx langs j = (states, thrown) \<Longrightarrow>
     (\<exists>k. map status states = replicate k Generating
            @ (if thrown = None then [status (last states)] else []))
     \<and> states \<noteq> []
     \<and> (thrown = None \<longrightarrow> status (last states) = Done \<or> status (last states) = Cancelled)"
proof (induction langs arbitrary: j idx states thrown)
  case Nil
  then have "states = [j\<lparr> status := Done, currentLang := [] \<rparr>]" "thrown = None" by auto
  then show ?case by (auto intro: exI[of _ 0])
next
  case (Cons lang rest)
  let ?j = "deliver e (Suc idx) j"
  let ?j1 = "?j\<lparr> currentLang := lang \<rparr>"
  let ?j2 = "?j1\<lparr> outputs := (outputs ?j1)(lang \<mapsto> OutVideo lang), completed := idx + 1 \<rparr>"
  show ?case
  proof (cases "job_cancelled ?j")
    case True
    then have "states = [?j\<lparr> status := Cancelled, currentLang := [] \<rparr>]" "thrown = None"
      using Cons.prems(2) by (auto simp: Let_def)
    then show ?thesis by (auto intro: exI[of _ 0])
  next
    case nc: False
    show ?thesis
    proof (cases "render_texts U (uppercase ?j1) tr lang 0 (job_texts ?j1)")
      case (Inl err)
      then have "states = [?j1]" "thrown = Some err"
        using nc Cons.prems(2) by (auto simp: Let_def)
      then show ?thesis using Cons.prems(1) by (auto intro: exI[of _ 1])
    next
      case (Inr rendered)
      show ?thesis
      proof (cases "encode_fails e lang")
        case True
        then have "states = [?j1]" "thrown = Some EncodeFailed"
          using nc Inr Cons.prems(2) by (auto simp: Let_def)
        then show ?thesis using Cons.prems(1) by (auto intro: exI[of _ 1])
      next
        case False
        obtain states' thrown' where r: "language_loop U e tr (Suc idx) rest ?j2 = (states', thrown')"
          by (cases "language_loop U e tr (Suc idx) rest ?j2")
        have st: "states = ?j2 # states'" "thrown = thrown'"
          using nc Inr False Cons.prems(2) r by (auto simp: Let_def)
        have g: "status ?j2 = Generating" using Cons.prems(1) by simp
        from Cons.IH[OF g r] obtain k where
          k: "map status states' = replicate k Generating @ (if thrown' = None then [status (last states')] else [])"
          and ne: "states' \<noteq> []"
          and fin: "thrown' = None \<longrightarrow> status (last states') = Done \<or> status (last states') = Cancelled"
          by blast
        have "map status states = replicate (Suc k) Generating
            @ (if thrown = None then [status (last states)] else [])"
          using st k ne g by simp
        then show ?thesis using st ne fin by (auto simp del: replicate_Suc)
      qed
    qed
  qed
qed

lemma generate_statuses:
  assumes "status j = Translating" "generateAllCountries U e j = (states, thrown)"
  shows "\<exists>k. map status (j # states) = Translating # replicate k Generating
            @ (if thrown = None then [status (last states)] else [])"
    and "thrown = None \<longrightarrow> states \<noteq> [] \<and> (status (last states) = Done \<or> status (last states) = Cancelled)"
    and "thrown \<noteq> None \<longrightarrow> status (last (j # states)) \<noteq> Error"
proof -
  have "(\<exists>k. map status (j # states) = Translating # replicate k Generating
            @ (if thrown = None then [status (last states)] else []))
    \<and> (thrown = None \<longrightarrow> states \<noteq> [] \<and> (status (last states) = Done \<or> status (last states) = Cancelled))
    \<and> (thrown \<noteq> None \<longrightarrow> status (last (j # states)) \<noteq> Error)"
  proof (cases "reply e")
    case RequestFails
    then have "states = []" "thrown = Some TransportFailure"
      using assms(2) by (auto simp: generateAllCountries_def)
    then show ?thesis using assms(1) by (auto intro: exI[of _ 0])
  next
    case (Reply parsed)
    show ?thesis
    proof (cases "job_cancelled (deliver e 0 j)")
      case True
      then have "states = [(deliver e 0 j)\<lparr> status := Cancelled \<rparr>]" "thrown = None"
        using assms(2) Reply by (auto simp: generateAllCountries_def Let_def)
      then show ?thesis using assms(1) by (auto intro: exI[of _ 0])
    next
      case False
      let ?j1 = "(deliver e 0 j)\<lparr> status := Generating \<rparr>"
      obtain states' thrown' where
        r: "language_loop U e (parsed_translations parsed) 0 (LANGUAGES ?j1) ?j1 = (states', thrown')"
        by (cases "language_loop U e (parsed_translations parsed) 0 (LANGUAGES ?j1) ?j1")
      have st: "states = ?j1 # states'" "thrown = thrown'"
        using assms(2) Reply False r by (auto simp: generateAllCountries_def Let_def)
      have "status ?j1 = Generating" by simp
      from language_loop_statuses[OF this r] obtain k where
        k: "map status states' = replicate k Generating @ (if thrown' = None then [status (last states')] else [])"
        and ne: "states' \<noteq> []"
        and fin: "thrown' = None \<longrightarrow> status (last states') = Done \<or> status (last states') = Cancelled"
        by blast
      have all: "\<forall>s \<in> set states'. thrown' \<noteq> None \<longrightarrow> status s = Generating"
      proof (intro ballI impI)
        fix s assume "s \<in> set states'" "thrown' \<noteq> None"
        then have "status s \<in> set (replicate k Generating)" using k by (metis (full_types) append_Nil2 image_eqI list.set_map)
        then show "status s = Generating" by auto
      qed
      have "map status (j # states) = Translating # replicate (Suc k) Generating
          @ (if thrown = None then [status (last states)] else [])"
        using st k ne assms(1) by simp
      moreover have "thrown \<noteq> None \<longrightarrow> status (last (j # states)) \<noteq> Error"
        using st ne all by (auto simp: last_conv_nth)
      ultimately show ?thesis using st ne fin by (auto simp del: replicate_Suc)
    qed
  qed
  then show "\<exists>k. map status (j # states) = Translating # replicate k Generating
            @ (if thrown = None then [status (last states)] else [])"
    and "thrown = None \<longrightarrow> states \<noteq> [] \<and> (status (last states) = Done \<or> status (last states) = Cancelled)"
    and "thrown \<noteq> None \<longrightarrow> status (last (j # states)) \<noteq> Error"
    by blast+
qed

lemma pipeline_nth: "\<not> terminal s \<Longrightarrow> pipeline_order ! rank s = s \<and> rank s < length pipeline_order"
  by (cases s) (simp_all add: rank_def pipeline_order_def terminal_def)

lemma in_progress_nth:
  "rank s < 4 \<Longrightarrow> butlast pipeline_order ! rank s = s \<and> rank s < length (butlast pipeline_order)"
  by (cases s) (simp_all add: rank_def pipeline_order_def)

lemma rising_subseq:
  "sorted_wrt (\<lambda>a b. rank a < rank b) xs \<Longrightarrow>
     \<forall>s \<in> set xs. n \<le> rank s \<and> rank s < length P \<and> P ! rank s = s \<Longrightarrow>
     subseq xs (drop n P)"
proof (induction xs arbitrary: n)
  case Nil
  then show ?case by simp
next
  case (Cons a rest)
  let ?m = "rank a"
  have m: "n \<le> ?m" "?m < length P" "P ! ?m = a" using Cons.prems(2) by auto
  have "subseq rest (drop (Suc ?m) P)"
    using Cons.prems by (intro Cons.IH) auto
  then have "subseq (a # rest) (a # drop (Suc ?m) P)" by simp
  moreover have "drop ?m P = a # drop (Suc ?m) P"
    using Cons_nth_drop_Suc[OF m(2)] m(3) by simp
  ultimately have "subseq (a # rest) (drop ?m P)" by simp
  moreover have "drop n P = take (?m - n) (drop n P) @ drop ?m P"
    using m by (metis add_diff_inverse_nat append_take_drop_id drop_drop not_less add.commute)
  ultimately show ?case by (metis subseq_drop_many)
qed

lemma rising_in_order:
  assumes "sorted_wrt (\<lambda>a b. rank a < rank b) xs"
  shows "in_order xs"
proof (cases xs rule: rev_cases)
  case Nil
  then show ?thesis by (simp add: in_order_def)
next
  case (snoc ys y)
  have low: "\<forall>s \<in> set ys. rank s < 4"
  proof
    fix s assume "s \<in> set ys"
    then have "rank s < rank y" using assms snoc by (auto simp: sorted_wrt_append)
    moreover have "rank y \<le> 4" by (cases y) (simp_all add: rank_def)
    ultimately show "rank s < 4" by simp
  qed
  have rising: "sorted_wrt (\<lambda>a b. rank a < rank b) ys"
    using assms snoc by (simp add: sorted_wrt_append)
  show ?thesis
  proof (cases "terminal y")
    case True
    have "subseq ys (drop 0 (butlast pipeline_order))"
      using rising low in_progress_nth by (intro rising_subseq) auto
    then show ?thesis using True snoc by (simp add: in_order_def)
  next
    case False
    have "\<not> terminal s" if "s \<in> set ys" for s
      using low that by (cases s) (auto simp: rank_def terminal_def)
    then have "\<forall>s \<in> set xs. 0 \<le> rank s \<and> rank s < length pipeline_order \<and> pipeline_order ! rank s = s"
      using False snoc pipeline_nth by auto
    then have "subseq xs (drop 0 pipeline_order)"
      using assms by (intro rising_subseq)
    then show ?thesis by (simp add: in_order_def)
  qed
qed

lemma remdups_adj_rising:
  "sorted_wrt same_or_later xs \<Longrightarrow> sorted_wrt (\<lambda>a b. rank a < rank b) (remdups_adj xs)"
proof (induction xs rule: remdups_adj.induct)
  case (3 x y xs)
  show ?case
  proof (cases "x = y")
    case True
    then show ?thesis using 3 by simp
  next
    case False
    then have xy: "rank x < rank y" using "3.prems" by (auto simp: same_or_later_def)
    have "rank x < rank c" if "c \<in> set (y # xs)" for c
    proof -
      have "c = y \<or> same_or_later y c" using that "3.prems" by auto
      then show ?thesis using xy by (auto simp: same_or_later_def)
    qed
    then show ?thesis using False 3 by auto
  qed
qed simp_all

lemma sampled_sorted:
  assumes "sorted_wrt same_or_later S" "sorted polls" "\<forall>i \<in> set polls. i < length S"
  shows "sorted_wrt same_or_later (map (\<lambda>i. S ! i) polls)"
  using assms(2,3)
proof (induction polls)
  case Nil
  then show ?case by simp
next
  case (Cons p ps)
  have "same_or_later (S ! p) (S ! q)" if "q \<in> set ps" for q
  proof (cases "p = q")
    case True
    then show ?thesis by (simp add: same_or_later_def)
  next
    case False
    then have "p < q" "q < length S" using Cons.prems that by auto
    then show ?thesis using assms(1) by (simp add: sorted_wrt_iff_nth_less)
  qed
  then show ?case using Cons by auto
qed

lemma run_sorted:
  "x = Done \<or> x = Error \<or> x = Cancelled \<Longrightarrow>
     sorted_wrt same_or_later (Translating # replicate k Generating @ [x])"
  by (induction k) (auto simp: sorted_wrt_append same_or_later_def rank_def)

lemma run_sorted_open:
  "sorted_wrt same_or_later (Translating # replicate k Generating)"
  by (induction k) (auto simp: sorted_wrt_append same_or_later_def rank_def)

lemma history_sorted:
  assumes "status j = Translating"
  shows "sorted_wrt same_or_later (map status (job_history U e j))"
    and "sorted_wrt same_or_later (map status (j # fst (generateAllCountries U e j)))"
proof -
  obtain states thrown where g: "generateAllCountries U e j = (states, thrown)"
    by (cases "generateAllCountries U e j")
  from generate_statuses(1,2)[OF assms g] obtain k where
    k: "map status (j # states) = Translating # replicate k Generating
            @ (if thrown = None then [status (last states)] else [])"
    and fin: "thrown = None \<longrightarrow> states \<noteq> [] \<and> (status (last states) = Done \<or> status (last states) = Cancelled)"
    by auto
  show "sorted_wrt same_or_later (map status (job_history U e j))"
  proof (cases thrown)
    case None
    then have "map status (job_history U e j) = Translating # replicate k Generating @ [status (last states)]"
      using g k by (simp add: job_history_def)
    then show ?thesis using fin None run_sorted[of "status (last states)" k] by auto
  next
    case (Some err)
    then have "map status (job_history U e j) = Translating # replicate k Generating @ [Error]"
      using g k by (simp add: job_history_def on_rejection_def)
    then show ?thesis using run_sorted[of Error k] by simp
  qed
  show "sorted_wrt same_or_later (map status (j # fst (generateAllCountries U e j)))"
  proof (cases thrown)
    case None
    then have "map status (j # fst (generateAllCountries U e j))
        = Translating # replicate k Generating @ [status (last states)]"
      using g k by simp
    then show ?thesis using fin None run_sorted[of "status (last states)" k] by auto
  next
    case (Some err)
    then have "map status (j # fst (generateAllCountries U e j)) = Translating # replicate k Generating"
      using g k by simp
    then show ?thesis using run_sorted_open[of k] by simp
  qed
qed

lemma legacy_sorted: "sorted_wrt same_or_later (legacy_history throws)"
  by (simp add: legacy_history_def processLocalizationJob_def same_or_later_def rank_def)

text \<open>
  The status along one job record. Polls read the record at moments that follow one
  another. The status values they read, successive repetitions dropped, are a subsequence
  of queued, analyzing, translating, generating, done, or a subsequence of the states
  before done followed by error or by cancelled: the status never goes back, and nothing
  follows done, error or cancelled. This holds of the record of a job of the generate
  handler, of one record that the queue processor registers (whose \<open>catch\<close> marks the queue
  entry and leaves the record as it is), and of a job of the first localizer.
\<close>

lemma record_status_monotone:
  "create_job jobId video_exists req = Inr j \<and> history = map status (job_history U e j)
   \<or> genJob video_exists entry = Inr j \<and> history = map status (j # fst (generateAllCountries U e j))
   \<or> history = legacy_history throws \<Longrightarrow>
   sorted polls \<Longrightarrow> \<forall>i \<in> set polls. i < length history \<Longrightarrow>
     in_order (remdups_adj (map (\<lambda>i. history ! i) polls))"
proof -
  assume h: "create_job jobId video_exists req = Inr j \<and> history = map status (job_history U e j)
   \<or> genJob video_exists entry = Inr j \<and> history = map status (j # fst (generateAllCountries U e j))
   \<or> history = legacy_history throws"
    and polls: "sorted polls" and bound: "\<forall>i \<in> set polls. i < length history"
  have "sorted_wrt same_or_later history"
  proof -
    consider (gen) "create_job jobId video_exists req = Inr j" "history = map status (job_history U e j)"
      | (queue) "genJob video_exists entry = Inr j"
          "history = map status (j # fst (generateAllCountries U e j))"
      | (legacy) "history = legacy_history throws"
      using h by blast
    then show ?thesis
    proof cases
      case gen
      from gen(1) have "status j = Translating"
        by (auto simp: create_job_def split: if_splits)
      then show ?thesis using history_sorted(1) gen(2) by simp
    next
      case queue
      from queue(1) have "status j = Translating"
        by (auto simp: genJob_def split: if_splits)
      then show ?thesis using history_sorted(2)[of j U e] queue(2) by simp
    next
      case legacy
      then show ?thesis using legacy_sorted by simp
    qed
  qed
  then have "sorted_wrt same_or_later (map (\<lambda>i. history ! i) polls)"
    using polls bound by (rule sampled_sorted)
  then show ?thesis
    by (intro rising_in_order remdups_adj_rising)
qed

text \<open>
  Claim C3 fails on the code. A poll reads the record that \<open>localizerJobs\<close> holds under
  the id, and the queue processor can register a second record under an id that has one.
  Two entries wait in the queue file and the queue is processed twice, the second request
  arriving while the first run awaits the generation of the first entry. The second run
  finds the first entry in work and takes the second one, whose record reaches the status
  generating. The first run then finishes its entry, writes its own array to the file, in
  which the second entry is still pending, and takes that entry again: it registers a new
  record in the status translating under the same id, while the record of the second run
  is still generating. The polls of the second id read translating, generating and then
  translating again.
\<close>

theorem status_regression:
  "map (poll (cps ''queue-2'')) (play ascii (sample_env None None []) (\<lambda>ident. True)
      [ProcessRequest, ProcessRequest, Resume 1, Resume 0, Resume 0, Resume 0, Resume 0] sample_server)
     = [None, Some Translating, Some Generating, Some Generating, Some Generating, Some Generating,
        Some Translating]
   \<and> map (map q_status \<circ> queue_file) (play ascii (sample_env None None []) (\<lambda>ident. True)
      [ProcessRequest, ProcessRequest, Resume 1, Resume 0, Resume 0, Resume 0, Resume 0] sample_server)
     = [[Processing, Pending], [Processing, Processing], [Processing, Processing],
        [Processing, Processing], [Processing, Processing], [Processing, Processing],
        [Processed, Processing]]
   \<and> map status (records (last (play ascii (sample_env None None []) (\<lambda>ident. True)
      [ProcessRequest, ProcessRequest, Resume 1, Resume 0, Resume 0, Resume 0, Resume 0] sample_server)))
     = [Done, Generating, Translating]
   \<and> \<not> in_order (remdups_adj [Translating, Generating, Generating, Generating, Generating, Translating])"
  by code_simp

subsection \<open>A failing encode\<close>

lemma language_loop_encode_failure:
  assumes "cancel_at e = None" "\<not> job_cancelled j"
    and "\<forall>l \<in> set before. \<not> encode_fails e l \<and> renders U j tr l"
    and "encode_fails e lang" "renders U j tr lang"
  shows "\<exists>states. language_loop U e tr idx (before @ lang # rest) j = (states, Some EncodeFailed)
       \<and> states \<noteq> []
       \<and> status (last states) = status j
       \<and> currentLang (last states) = lang
       \<and> outputs (last states) = (\<lambda>l. if l \<in> set before then Some (OutVideo l) else outputs j l)
       \<and> completed (last states) = (if before = [] then completed j else idx + length before)"
  using assms
proof (induction before arbitrary: j idx)
  case Nil
  then show ?case
    by (auto simp: Let_def deliver_def renders_def split: sum.splits)
next
  case (Cons l ls)
  let ?j2 = "j\<lparr> currentLang := l, outputs := (outputs j)(l \<mapsto> OutVideo l), completed := idx + 1 \<rparr>"
  have r: "\<forall>l \<in> set ls. \<not> encode_fails e l \<and> renders U ?j2 tr l" "renders U ?j2 tr lang"
    using Cons.prems by (auto simp: renders_def)
  have nc: "\<not> job_cancelled ?j2" using Cons.prems by simp
  from Cons.IH[of ?j2 "Suc idx", OF Cons.prems(1) nc r(1) Cons.prems(4) r(2)]
  obtain states where st: "language_loop U e tr (Suc idx) (ls @ lang # rest) ?j2 = (states, Some EncodeFailed)"
    and ne: "states \<noteq> []"
    and last: "status (last states) = status ?j2" "currentLang (last states) = lang"
      "outputs (last states) = (\<lambda>l'. if l' \<in> set ls then Some (OutVideo l') else outputs ?j2 l')"
      "completed (last states) = (if ls = [] then completed ?j2 else Suc idx + length ls)"
    by blast
  have step: "language_loop U e tr idx ((l # ls) @ lang # rest) j = (?j2 # states, Some EncodeFailed)"
    using Cons.prems st by (auto simp: Let_def deliver_def renders_def split: sum.splits)
  show ?case
    unfolding step using ne last by (auto simp: fun_eq_iff)
qed

text \<open>
  Claim C4, as the code runs it. The encode is awaited inside the language loop with no
  \<open>try\<close> around it. When the encode of a language exits non-zero (the translation request
  returned, no cancellation was seen, the languages before it were encoded), the
  exception leaves the loop and the handler's \<open>catch\<close> sets the status \<open>error\<close>: the
  outputs are those of the languages before it, and neither the failing language nor
  any language after it gets one.
\<close>

theorem encode_failure_aborts:
  assumes "create_job jobId video_exists req = Inr j"
    and "reply e = Reply parsed" "cancel_at e = None"
    and "LANGUAGES j = before @ lang # rest"
    and "\<forall>l \<in> set before. \<not> encode_fails e l \<and> renders U j (parsed_translations parsed) l"
    and "encode_fails e lang" "renders U j (parsed_translations parsed) lang"
  shows "snd (generateAllCountries U e j) = Some EncodeFailed
       \<and> status (last (job_history U e j)) = Error
       \<and> job_error (last (job_history U e j)) = Some EncodeFailed
       \<and> currentLang (last (job_history U e j)) = lang
       \<and> dom (outputs (last (job_history U e j))) = set before
       \<and> completed (last (job_history U e j)) = length before"
proof -
  from assms(1) have j: "\<not> job_cancelled j" "outputs j = Map.empty" "completed j = 0"
    by (auto simp: create_job_def split: if_splits)
  let ?j1 = "j\<lparr> status := Generating \<rparr>"
  have r: "\<forall>l \<in> set before. \<not> encode_fails e l \<and> renders U ?j1 (parsed_translations parsed) l"
      "renders U ?j1 (parsed_translations parsed) lang"
    using assms(5,7) by (auto simp: renders_def)
  have nc: "\<not> job_cancelled ?j1" using j by simp
  from language_loop_encode_failure[OF assms(3) nc r(1) assms(6) r(2), of 0 rest]
  obtain states where
    st: "language_loop U e (parsed_translations parsed) 0 (before @ lang # rest) ?j1 = (states, Some EncodeFailed)"
    and ne: "states \<noteq> []"
    and last: "currentLang (last states) = lang"
      "outputs (last states) = (\<lambda>l. if l \<in> set before then Some (OutVideo l) else outputs ?j1 l)"
      "completed (last states) = (if before = [] then completed ?j1 else 0 + length before)"
    by blast
  have gen: "generateAllCountries U e j = (?j1 # states, Some EncodeFailed)"
    using assms(2,3,4) j st by (simp add: generateAllCountries_def deliver_def LANGUAGES_def Let_def)
  have hist: "job_history U e j = (j # ?j1 # states) @ [on_rejection (last states) EncodeFailed]"
    using gen ne by (simp add: job_history_def)
  show ?thesis
    unfolding hist gen using last j by (auto simp: on_rejection_def dom_def split: if_splits)
qed

text \<open>
  The theorem on a job for Croatian, Czech and Polish whose Czech encode fails: the
  Croatian video is there, the Czech and the Polish are not, and the job ends in error.
\<close>

theorem encode_failure_aborts_witness:
  "create_job (cps ''gen-1'') True (sample_request (Some [cps ''HR'', cps ''CZ'', cps ''PL'']) False)
     = Inr (sample_job [cps ''HR'', cps ''CZ'', cps ''PL''] False)
   \<and> encode_fails (sample_env None None [cps ''CZ'']) (cps ''CZ'')
   \<and> \<not> encode_fails (sample_env None None [cps ''CZ'']) (cps ''HR'')
   \<and> status (last (job_history ascii (sample_env None None [cps ''CZ''])
        (sample_job [cps ''HR'', cps ''CZ'', cps ''PL''] False))) = Error
   \<and> dom (outputs (last (job_history ascii (sample_env None None [cps ''CZ''])
        (sample_job [cps ''HR'', cps ''CZ'', cps ''PL''] False)))) = {cps ''HR''}"
proof -
  let ?j = "sample_job [cps ''HR'', cps ''CZ'', cps ''PL''] False"
  let ?e = "sample_env None None [cps ''CZ'']"
  have c: "create_job (cps ''gen-1'') True (sample_request (Some [cps ''HR'', cps ''CZ'', cps ''PL'']) False) = Inr ?j"
    by (simp add: create_job_def sample_request_def sample_job_def selectedCountries_def
        ALL_COUNTRIES_def cps_def)
  have r: "reply ?e = Reply None" and n: "cancel_at ?e = None"
    by (simp_all add: sample_env_def)
  have l: "LANGUAGES ?j = [cps ''HR''] @ cps ''CZ'' # [cps ''PL'']"
    by (simp add: LANGUAGES_def sample_job_def)
  have ok: "\<forall>l \<in> set [cps ''HR'']. \<not> encode_fails ?e l \<and> renders ascii ?j (parsed_translations None) l"
    by (simp add: sample_env_def renders_def sample_job_def parsed_translations_def localized_text_def
        translation_entry_def cps_def Let_def)
  have f: "encode_fails ?e (cps ''CZ'')"
    by (simp add: sample_env_def)
  have rf: "renders ascii ?j (parsed_translations None) (cps ''CZ'')"
    by (simp add: renders_def sample_job_def parsed_translations_def localized_text_def
        translation_entry_def cps_def Let_def)
  have hr: "\<not> encode_fails ?e (cps ''HR'')"
    by (simp add: sample_env_def cps_def)
  show ?thesis
    using c f hr encode_failure_aborts [OF c r n l ok f rf] by simp
qed

text \<open>
  A job for Croatian and Czech whose Croatian encode fails: the job ends in error, the
  Czech iteration never starts and no output is recorded.
\<close>

theorem encode_failure_counterexample:
  "map status (job_history ascii (sample_env None None [cps ''HR'']) (sample_job [cps ''HR'', cps ''CZ''] False))
     = [Translating, Generating, Generating, Error]
   \<and> map currentLang (job_history ascii (sample_env None None [cps ''HR'']) (sample_job [cps ''HR'', cps ''CZ''] False))
     = [[], [], cps ''HR'', cps ''HR'']
   \<and> outputs (last (job_history ascii (sample_env None None [cps ''HR'']) (sample_job [cps ''HR'', cps ''CZ''] False)))
     = Map.empty"
  by (simp add: job_history_def generateAllCountries_def on_rejection_def parsed_translations_def deliver_def
        cancel_job_def LANGUAGES_def sample_job_def sample_env_def localized_text_def
        translation_entry_def cps_def Let_def)

subsection \<open>The countries of a job\<close>

lemma selectedCountries_subset: "set (selectedCountries cs) \<subseteq> set ALL_COUNTRIES"
  by (auto simp: selectedCountries_def split: option.splits)

text \<open>
  Claim C10, as the code runs it. The countries of a created job are among the seven
  supported codes: unsupported codes are dropped, an absent or empty input gives all
  seven, and an input of unsupported codes only gives the empty list. Such a job runs no
  language iteration and records no output, but it still sends the translation request
  and passes the cancellation check that follows it: it ends in the status error when
  the request fails, in cancelled when a cancel request was handled before that check,
  and in done otherwise.
\<close>

theorem countries_invariant:
  "create_job jobId video_exists req = Inr j \<Longrightarrow>
     countries j = Some (selectedCountries (req_countries req))
     \<and> set (LANGUAGES j) \<subseteq> set ALL_COUNTRIES
     \<and> (req_countries req = None \<or> req_countries req = Some [] \<longrightarrow> LANGUAGES j = ALL_COUNTRIES)
     \<and> (\<forall>cs. req_countries req = Some cs \<and> cs \<noteq> [] \<longrightarrow>
           LANGUAGES j = filter (\<lambda>c. c \<in> set ALL_COUNTRIES) cs)
     \<and> (\<forall>cs. req_countries req = Some cs \<and> cs \<noteq> [] \<and> set cs \<inter> set ALL_COUNTRIES = {} \<longrightarrow>
           LANGUAGES j = []
           \<and> outputs (last (job_history U e j)) = Map.empty
           \<and> completed (last (job_history U e j)) = 0
           \<and> map status (job_history U e j) =
                (if reply e = RequestFails then [Translating, Error]
                 else if cancel_at e = Some 0 then [Translating, Cancelled]
                 else [Translating, Generating, Done]))"
proof -
  assume c: "create_job jobId video_exists req = Inr j"
  then have j: "countries j = Some (selectedCountries (req_countries req))" "status j = Translating"
      "outputs j = Map.empty" "completed j = 0" "\<not> job_cancelled j"
    by (auto simp: create_job_def split: if_splits)
  have langs: "LANGUAGES j = selectedCountries (req_countries req)"
    using j(1) by (simp add: LANGUAGES_def)
  have none: "LANGUAGES j = []" if "req_countries req = Some cs" "cs \<noteq> []" "set cs \<inter> set ALL_COUNTRIES = {}" for cs
    using that langs by (auto simp: selectedCountries_def filter_empty_conv)
  have run: "outputs (last (job_history U e j)) = Map.empty
       \<and> completed (last (job_history U e j)) = 0
       \<and> map status (job_history U e j) =
            (if reply e = RequestFails then [Translating, Error]
             else if cancel_at e = Some 0 then [Translating, Cancelled]
             else [Translating, Generating, Done])"
    if "LANGUAGES j = []"
  proof (cases "reply e")
    case RequestFails
    then show ?thesis using j by (simp add: job_history_def generateAllCountries_def on_rejection_def)
  next
    case (Reply parsed)
    have "LANGUAGES (deliver e 0 j\<lparr>status := Generating\<rparr>) = []"
      using that by (simp add: LANGUAGES_def deliver_def cancel_job_def)
    then show ?thesis
      using j Reply
      by (auto simp: job_history_def generateAllCountries_def deliver_def cancel_job_def Let_def)
  qed
  show ?thesis
    using j(1) langs none run selectedCountries_subset[of "req_countries req"]
    by (auto simp: selectedCountries_def)
qed

text \<open>
  The theorem on a request for two unsupported codes whose translation reply cannot be
  parsed, and on a request that names Germany next to Croatia.
\<close>

theorem countries_invariant_witness:
  "create_job (cps ''gen-1'') True (sample_request (Some [cps ''DE'', cps ''XX'']) False)
     = Inr (sample_job [] False)
   \<and> set [cps ''DE'', cps ''XX''] \<inter> set ALL_COUNTRIES = {}
   \<and> reply (sample_env None None []) \<noteq> RequestFails \<and> cancel_at (sample_env None None []) \<noteq> Some 0
   \<and> map status (job_history ascii (sample_env None None []) (sample_job [] False))
       = [Translating, Generating, Done]
   \<and> outputs (last (job_history ascii (sample_env None None []) (sample_job [] False))) = Map.empty
   \<and> create_job (cps ''gen-1'') True (sample_request (Some [cps ''DE'', cps ''HR'']) False)
     = Inr (sample_job [cps ''HR''] False)
   \<and> LANGUAGES (sample_job [cps ''HR''] False) = filter (\<lambda>c. c \<in> set ALL_COUNTRIES) [cps ''DE'', cps ''HR'']"
proof -
  have c: "create_job (cps ''gen-1'') True (sample_request (Some [cps ''DE'', cps ''XX'']) False)
     = Inr (sample_job [] False)"
    by (simp add: create_job_def sample_request_def sample_job_def selectedCountries_def
        ALL_COUNTRIES_def cps_def)
  have c2: "create_job (cps ''gen-1'') True (sample_request (Some [cps ''DE'', cps ''HR'']) False)
     = Inr (sample_job [cps ''HR''] False)"
    by (simp add: create_job_def sample_request_def sample_job_def selectedCountries_def
        ALL_COUNTRIES_def cps_def)
  have d: "set [cps ''DE'', cps ''XX''] \<inter> set ALL_COUNTRIES = {}"
    by (simp add: ALL_COUNTRIES_def cps_def)
  have q: "req_countries (sample_request (Some [cps ''DE'', cps ''XX'']) False) = Some [cps ''DE'', cps ''XX'']"
      "req_countries (sample_request (Some [cps ''DE'', cps ''HR'']) False) = Some [cps ''DE'', cps ''HR'']"
    by (simp_all add: sample_request_def)
  have e: "reply (sample_env None None []) \<noteq> RequestFails" "cancel_at (sample_env None None []) \<noteq> Some 0"
    by (simp_all add: sample_env_def)
  show ?thesis
    using c c2 d e q
      countries_invariant [OF c, of ascii "sample_env None None []"]
      countries_invariant [OF c2, of ascii "sample_env None None []"]
    by simp
qed

text \<open>
  A job created from two unsupported codes does not finish in the status done when its
  translation request fails, or when it is cancelled while the request is under way: it
  ends in error, or in cancelled.
\<close>

theorem countries_invariant_counterexample:
  "create_job (cps ''gen-1'') True (sample_request (Some [cps ''DE'', cps ''XX'']) False)
     = Inr (sample_job [] False)
   \<and> map status (job_history ascii \<lparr> reply = RequestFails, cancel_at = None, encode_fails = (\<lambda>lang. False) \<rparr>
        (sample_job [] False)) = [Translating, Error]
   \<and> map status (job_history ascii (sample_env None (Some 0) []) (sample_job [] False))
       = [Translating, Cancelled]"
  by (simp add: create_job_def sample_request_def sample_job_def selectedCountries_def
      ALL_COUNTRIES_def cps_def job_history_def generateAllCountries_def on_rejection_def
      sample_env_def deliver_def cancel_job_def Let_def)

section \<open>Properties of the delete handler\<close>

text \<open>
  What the handler does with a job that exists. The request is refused only when the job
  records an author, the caller supplies one, and the two differ after upper-casing; the
  registry, the saved file and the output directory are then as before. In every other
  case the job leaves the registry and the saved file and its output directory is removed.
\<close>

lemma delete_job_outcome:
  "jobs st ident = Some j \<Longrightarrow>
     (fst (delete_job U st ident a) = Forbidden \<longleftrightarrow>
        jobAuthor U j \<noteq> [] \<and> requestAuthor U a \<noteq> [] \<and> jobAuthor U j \<noteq> requestAuthor U a)
     \<and> (fst (delete_job U st ident a) = Forbidden \<longrightarrow> snd (delete_job U st ident a) = st)
     \<and> (fst (delete_job U st ident a) \<noteq> Forbidden \<longrightarrow>
          fst (delete_job U st ident a) = Success
          \<and> jobs (snd (delete_job U st ident a)) = (jobs st)(ident := None)
          \<and> saved (snd (delete_job U st ident a)) = (jobs st)(ident := None)
          \<and> dirs (snd (delete_job U st ident a)) = dirs st - {job_id j})"
  by (simp add: delete_job_def Let_def)

text \<open>
  Claim C9 fails on the code. The handler is headed \<open>Delete a job (only if author
  matches)\<close> and refuses with \<open>you can delete only your own creatives\<close>, but its test
  \<open>jobAuthor && requestAuthor && jobAuthor !== requestAuthor\<close> is skipped when either
  author is empty. On the sample store, whose job records the author \<open>ana\<close>: the caller
  \<open>Ana\<close> deletes it and the caller \<open>bob\<close> is refused, as the claim says; a caller who sends
  no author at all is not refused, and the job, its saved record and its output directory
  are gone.
\<close>

theorem delete_without_author:
  "jobs sample_store (cps ''gen-1'') = Some (sample_job ALL_COUNTRIES False)
   \<and> jobAuthor ascii (sample_job ALL_COUNTRIES False) = cps ''ANA''
   \<and> delete_job ascii sample_store (cps ''gen-1'') (Some (cps ''Ana''))
       = (Success, \<lparr> jobs = Map.empty, saved = Map.empty, dirs = {} \<rparr>)
   \<and> delete_job ascii sample_store (cps ''gen-1'') (Some (cps ''bob'')) = (Forbidden, sample_store)
   \<and> requestAuthor ascii None = []
   \<and> requestAuthor ascii None \<noteq> jobAuthor ascii (sample_job ALL_COUNTRIES False)
   \<and> delete_job ascii sample_store (cps ''gen-1'') None
       = (Success, \<lparr> jobs = Map.empty, saved = Map.empty, dirs = {} \<rparr>)"
proof -
  have s: "jobs sample_store (cps ''gen-1'') = Some (sample_job ALL_COUNTRIES False)"
    by (simp add: sample_store_def)
  have a: "jobAuthor ascii (sample_job ALL_COUNTRIES False) = cps ''ANA''"
      "requestAuthor ascii (Some (cps ''Ana'')) = cps ''ANA''"
      "requestAuthor ascii (Some (cps ''bob'')) = cps ''BOB''"
      "requestAuthor ascii None = []"
    by (simp_all add: jobAuthor_def requestAuthor_def sample_job_def ascii_def cps_def)
  have i: "job_id (sample_job ALL_COUNTRIES False) = cps ''gen-1''"
    by (simp add: sample_job_def)
  have ne: "cps ''ANA'' \<noteq> []" "cps ''BOB'' \<noteq> []" "cps ''ANA'' \<noteq> cps ''BOB''"
    by (simp_all add: cps_def)
  have ok: "delete_job ascii sample_store (cps ''gen-1'') (Some (cps ''Ana''))
       = (Success, \<lparr> jobs = Map.empty, saved = Map.empty, dirs = {} \<rparr>)"
    using s a i by (simp add: delete_job_def sample_store_def Let_def)
  have no: "delete_job ascii sample_store (cps ''gen-1'') (Some (cps ''bob'')) = (Forbidden, sample_store)"
    using s a ne by (simp add: delete_job_def Let_def)
  have anon: "delete_job ascii sample_store (cps ''gen-1'') None
       = (Success, \<lparr> jobs = Map.empty, saved = Map.empty, dirs = {} \<rparr>)"
    using s a i by (simp add: delete_job_def sample_store_def Let_def)
  show ?thesis using s a ne ok no anon by simp
qed

section \<open>Properties of the segment builder\<close>

subsection \<open>Normalization\<close>





















subsection \<open>Every entry has a text\<close>

lemma find_index_Some: "find_index P xs = Some j \<Longrightarrow> j < length xs \<and> P (xs ! j)"
  by (induction xs arbitrary: j) (auto split: if_splits)

lemma all_update: "\<forall>t \<in> set xs. P t \<Longrightarrow> P x \<Longrightarrow> \<forall>t \<in> set (xs[j := x]). P t"
  using set_update_subset_insert[of xs j x] by fastforce










subsection \<open>The time range of an entry\<close>

lemma timed_later: "timed ts texts \<Longrightarrow> ts \<le> ts' \<Longrightarrow> timed ts' texts"
  by (fastforce simp: timed_def)

lemma timed_add_text:
  assumes "timed ts texts"
  shows "timed ts (add_text U ts texts s)"
proof (cases "normalizedText s = []")
  case True
  then show ?thesis using assms by (simp add: add_text_def)
next
  case False
  have new: "timed ts (texts @ [new_text (normalizedText s) ts])"
    using assms by (simp add: timed_def new_text_def frameInterval_def)
  show ?thesis
  proof (cases "find_index (same_text U (normalizedText s)) texts")
    case None
    then show ?thesis using False new by (simp add: add_text_def)
  next
    case (Some j)
    then have "j < length texts" by (auto dest: find_index_Some)
    then have "t_start (texts ! j) \<le> ts" using assms by (simp add: timed_def)
    then have "timed ts (texts[j := (texts ! j)\<lparr> t_end := ts + frameInterval \<rparr>])"
      using assms unfolding timed_def by (intro all_update) (simp_all add: frameInterval_def)
    then show ?thesis using False Some new by (simp add: add_text_def Let_def)
  qed
qed

lemma timed_detect_all: "timed ts texts \<Longrightarrow> timed ts (fst (detect_all U ts texts found))"
proof (induction found arbitrary: texts)
  case Nil
  then show ?case by simp
next
  case (Cons t rest)
  show ?case
  proof (cases "textContent_of t")
    case NoText
    then show ?thesis using Cons by (cases t) simp_all
  next
    case (Str s)
    have "timed ts (add_text U ts texts s)" using Cons.prems by (rule timed_add_text)
    then have "timed ts (fst (detect_all U ts (add_text U ts texts s) rest))" by (rule Cons.IH)
    then show ?thesis using Str Cons by (cases t) (simp_all add: textContent_of_def)
  next
    case NotAString
    then show ?thesis using Cons by (cases t) (simp_all add: textContent_of_def)
  qed
qed

lemma timed_close_absent: "timed ts texts \<Longrightarrow> timed ts (close_absent U ts cur texts)"
  by (auto simp: timed_def close_absent_def frameInterval_def)

lemma timed_analyze_frame:
  assumes "timed ts texts" "ts \<le> timestamp_of (fst frame)"
  shows "timed (timestamp_of (fst frame)) (analyze_frame U texts frame)"
proof -
  have now: "timed (timestamp_of (fst frame)) texts" using assms by (rule timed_later)
  show ?thesis
  proof (cases "snd frame")
    case Skipped
    then show ?thesis using now by (simp add: analyze_frame_def)
  next
    case (Parsed found)
    obtain texts' thrown where d: "detect_all U (timestamp_of (fst frame)) texts found = (texts', thrown)"
      by (cases "detect_all U (timestamp_of (fst frame)) texts found")
    have "timed (timestamp_of (fst frame)) texts'"
      using timed_detect_all[OF now, of U found] d by simp
    then show ?thesis
      using Parsed d by (cases thrown) (simp_all add: analyze_frame_def Let_def timed_close_absent)
  qed
qed

lemma timestamp_of_mono: "a \<le> b \<Longrightarrow> timestamp_of a \<le> timestamp_of b"
  by (simp add: timestamp_of_def)

lemma timed_foldl:
  "frames \<noteq> [] \<Longrightarrow> sorted (map fst frames) \<Longrightarrow> timed ts texts \<Longrightarrow>
     ts \<le> timestamp_of (fst (hd frames)) \<Longrightarrow>
     timed (timestamp_of (fst (last frames))) (foldl (analyze_frame U) texts frames)"
proof (induction frames arbitrary: ts texts)
  case Nil
  then show ?case by simp
next
  case (Cons f rest)
  have step: "timed (timestamp_of (fst f)) (analyze_frame U texts f)"
    using Cons.prems(3,4) by (intro timed_analyze_frame) simp_all
  show ?case
  proof (cases rest)
    case Nil
    then show ?thesis using step by simp
  next
    case (Cons g rest')
    have "timestamp_of (fst f) \<le> timestamp_of (fst (hd rest))"
      using Cons Cons.prems(2) by (intro timestamp_of_mono) simp
    moreover have "sorted (map fst rest)" using Cons.prems(2) by simp
    ultimately have "timed (timestamp_of (fst (last rest))) (foldl (analyze_frame U) (analyze_frame U texts f) rest)"
      using Cons step by (intro Cons.IH) simp_all
    then show ?thesis using Cons by simp
  qed
qed

lemma bounded_close_open:
  assumes "timed (timestamp_of lastFrame) texts"
  shows "bounded (timestamp_of lastFrame + frameInterval) (close_open lastFrame texts)"
  using assms by (auto simp: bounded_def timed_def close_open_def timestamp_of_def frameInterval_def)

lemma bounded_merge_texts:
  "bounded limit merged \<Longrightarrow> bounded limit rest \<Longrightarrow> bounded limit (merge_texts U merged rest)"
proof (induction rest arbitrary: merged)
  case Nil
  then show ?case by simp
next
  case (Cons t rest)
  have rest: "bounded limit rest" and t: "t_start t < t_end t" "t_end t \<le> limit"
    using Cons.prems(2) by (simp_all add: bounded_def)
  show ?case
  proof (cases "find_index (mergeable U t) merged")
    case None
    have "bounded limit (merged @ [t])" using Cons.prems(1) t by (simp add: bounded_def)
    then show ?thesis using None Cons.IH rest by simp
  next
    case (Some j)
    then have "j < length merged" by (auto dest: find_index_Some)
    then have m: "t_start (merged ! j) < t_end (merged ! j)" "t_end (merged ! j) \<le> limit"
      using Cons.prems(1) by (simp_all add: bounded_def)
    have "bounded limit (merged[j := (merged ! j)\<lparr> t_start := min (t_start (merged ! j)) (t_start t),
                                        t_end := max (t_end (merged ! j)) (t_end t) \<rparr>])"
      using Cons.prems(1) m t unfolding bounded_def by (intro all_update) auto
    then show ?thesis using Some Cons.IH rest by (simp add: Let_def)
  qed
qed

subsection \<open>Two sightings of one text\<close>

lemma find_index_None: "\<forall>x \<in> set xs. \<not> P x \<Longrightarrow> find_index P xs = None"
  by (induction xs) auto

lemma nothing_seen:
  "analyze_frame U texts (i, Parsed []) =
     map (\<lambda>t. if \<not> t_closed t \<and> timestamp_of i > t_start t
               then t\<lparr> t_end := timestamp_of i, t_closed := True \<rparr> else t) texts"
  by (simp add: analyze_frame_def close_absent_def Let_def)

lemma nothing_seen_closed:
  "\<forall>t \<in> set texts. t_closed t \<Longrightarrow> analyze_frame U texts (i, Parsed []) = texts"
  by (simp add: nothing_seen map_idI)

lemma empties_closed:
  "\<forall>t \<in> set texts. t_closed t \<Longrightarrow>
     foldl (analyze_frame U) texts (map (\<lambda>i. (i, Parsed [])) is) = texts"
  by (induction "is") (simp_all add: nothing_seen_closed)

lemma empties_close:
  assumes "l < u" "\<forall>t \<in> set texts. t_start t < timestamp_of l"
  shows "foldl (analyze_frame U) texts (map (\<lambda>i. (i, Parsed [])) [l ..< u]) =
     map (\<lambda>t. if t_closed t then t else t\<lparr> t_end := timestamp_of l, t_closed := True \<rparr>) texts"
proof -
  let ?c = "map (\<lambda>t. if t_closed t then t else t\<lparr> t_end := timestamp_of l, t_closed := True \<rparr>) texts"
  have first: "analyze_frame U texts (l, Parsed []) = ?c"
    using assms(2) by (auto simp: nothing_seen)
  have "[l ..< u] = l # [Suc l ..< u]" using assms(1) by (simp add: upt_conv_Cons)
  then have "foldl (analyze_frame U) texts (map (\<lambda>i. (i, Parsed [])) [l ..< u])
      = foldl (analyze_frame U) ?c (map (\<lambda>i. (i, Parsed [])) [Suc l ..< u])"
    using first by simp
  also have "\<dots> = ?c" by (rule empties_closed) auto
  finally show ?thesis .
qed

lemma sighting_new:
  assumes "normalizedText s = s" "s \<noteq> []" "\<forall>t \<in> set texts. t_closed t"
  shows "analyze_frame U texts (i, sighting s) = texts @ [new_text s (timestamp_of i)]"
proof -
  have none: "find_index (same_text U s) texts = None"
    using assms(3) by (intro find_index_None) (simp add: same_text_def)
  have d: "detect_all U (timestamp_of i) texts [Obj (Str s)] = (texts @ [new_text s (timestamp_of i)], False)"
    using assms(1,2) none by (simp add: textContent_of_def add_text_def)
  have c: "close_absent U (timestamp_of i) [stripForCompare U s] (texts @ [new_text s (timestamp_of i)])
      = texts @ [new_text s (timestamp_of i)]"
    using assms(3) by (simp add: close_absent_def new_text_def map_idI)
  show ?thesis
    unfolding analyze_frame_def sighting_def Let_def
    by (simp add: d compare_text_def textContent_of_def c del: detect_all.simps)
qed

lemma sighting_extend:
  assumes "normalizedText s = s" "s \<noteq> []" "timestamp_of i - y \<le> frameInterval"
  shows "analyze_frame U [\<lparr>t_text = s, t_start = x, t_end = y, t_closed = False\<rparr>] (i, sighting s)
     = [\<lparr>t_text = s, t_start = x, t_end = timestamp_of i + frameInterval, t_closed = False\<rparr>]"
proof -
  let ?e = "\<lparr>t_text = s, t_start = x, t_end = y, t_closed = False\<rparr>"
  let ?e' = "\<lparr>t_text = s, t_start = x, t_end = timestamp_of i + frameInterval, t_closed = False\<rparr>"
  have f: "find_index (same_text U s) [?e] = Some 0" by (simp add: same_text_def)
  have d: "detect_all U (timestamp_of i) [?e] [Obj (Str s)] = ([?e'], False)"
    using assms f by (simp add: textContent_of_def add_text_def)
  have c: "close_absent U (timestamp_of i) [stripForCompare U s] [?e'] = [?e']"
    by (simp add: close_absent_def)
  show ?thesis
    unfolding analyze_frame_def sighting_def Let_def
    by (simp add: d compare_text_def textContent_of_def c del: detect_all.simps)
qed

lemma timestamp_of_Suc: "timestamp_of (Suc i) = timestamp_of i + 1 / 2"
  by (simp add: timestamp_of_def field_simps)

lemma timestamp_of_less: "i < j \<Longrightarrow> timestamp_of i < timestamp_of j"
  by (simp add: timestamp_of_def)

lemma two_sightings_split:
  assumes "1 \<le> a" "a < b" "b \<le> n"
  shows "two_sightings s a b n =
     map (\<lambda>i. (i, Parsed [])) [1 ..< a] @ [(a, sighting s)]
     @ map (\<lambda>i. (i, Parsed [])) [Suc a ..< b] @ [(b, sighting s)]
     @ map (\<lambda>i. (i, Parsed [])) [Suc b ..< Suc n]"
proof -
  let ?f = "\<lambda>i. (i, if i = a \<or> i = b then sighting s else Parsed [])"
  have 1: "[1 ..< Suc n] = [1 ..< a] @ [a ..< Suc n]"
    using upt_add_eq_append[of 1 a "Suc n - a"] assms by simp
  have 2: "[a ..< Suc n] = [a ..< b] @ [b ..< Suc n]"
    using upt_add_eq_append[of a b "Suc n - b"] assms by simp
  have 3: "[a ..< b] = a # [Suc a ..< b]" using assms by (simp add: upt_conv_Cons)
  have 4: "[b ..< Suc n] = b # [Suc b ..< Suc n]" using assms by (simp add: upt_conv_Cons)
  have "[1 ..< Suc n] = [1 ..< a] @ [a] @ [Suc a ..< b] @ [b] @ [Suc b ..< Suc n]"
    unfolding 1 2 3 4 by simp
  then have "map ?f [1 ..< Suc n] = map ?f ([1 ..< a] @ [a] @ [Suc a ..< b] @ [b] @ [Suc b ..< Suc n])"
    by (rule arg_cong)
  then have "two_sightings s a b n = map ?f [1 ..< a] @ [?f a] @ map ?f [Suc a ..< b] @ [?f b] @ map ?f [Suc b ..< Suc n]"
    unfolding two_sightings_def by (simp only: map_append list.map)
  moreover have "map ?f [1 ..< a] = map (\<lambda>i. (i, Parsed [])) [1 ..< a]"
    using assms by (intro map_cong) auto
  moreover have "map ?f [Suc a ..< b] = map (\<lambda>i. (i, Parsed [])) [Suc a ..< b]"
    by (intro map_cong) auto
  moreover have "map ?f [Suc b ..< Suc n] = map (\<lambda>i. (i, Parsed [])) [Suc b ..< Suc n]"
    using assms by (intro map_cong) auto
  moreover have "?f a = (a, sighting s)" "?f b = (b, sighting s)" by simp_all
  ultimately show ?thesis by (simp only:)
qed

lemma two_sightings_texts:
  assumes "normalizedText s = s" "s \<noteq> []" "1 \<le> a" "a < b" "b \<le> n"
  shows "close_open n (foldl (analyze_frame U) [] (two_sightings s a b n)) =
     (if Suc a = b
      then [\<lparr>t_text = s, t_start = timestamp_of a, t_end = timestamp_of b + 1 / 2, t_closed = (b < n)\<rparr>]
      else [\<lparr>t_text = s, t_start = timestamp_of a, t_end = timestamp_of a + 1 / 2, t_closed = True\<rparr>,
            \<lparr>t_text = s, t_start = timestamp_of b, t_end = timestamp_of b + 1 / 2, t_closed = (b < n)\<rparr>])"
proof -
  let ?F = "analyze_frame U"
  let ?E = "\<lambda>x y c. \<lparr>t_text = s, t_start = x, t_end = y, t_closed = c\<rparr>"
  let ?ta = "timestamp_of a" and ?tb = "timestamp_of b"
  define s1 where "s1 = [?E ?ta (?ta + 1 / 2) False]"
  define s2 where "s2 = foldl ?F s1 (map (\<lambda>i. (i, Parsed [])) [Suc a ..< b])"
  define s3 where "s3 = ?F s2 (b, sighting s)"
  define s4 where "s4 = foldl ?F s3 (map (\<lambda>i. (i, Parsed [])) [Suc b ..< Suc n])"
  have p0: "foldl ?F [] (map (\<lambda>i. (i, Parsed [])) [1 ..< a]) = []"
    by (rule empties_closed) simp
  have p1: "?F [] (a, sighting s) = s1"
    using sighting_new[OF assms(1,2), of "[]" U a] by (simp add: s1_def new_text_def frameInterval_def)
  have all: "foldl ?F [] (two_sightings s a b n) = s4"
    unfolding two_sightings_split[OF assms(3,4,5)]
    by (simp only: foldl_append foldl.simps p0 p1 s2_def s3_def s4_def)
  show ?thesis
  proof (cases "Suc a = b")
    case True
    then have tb: "?tb = ?ta + 1 / 2" using timestamp_of_Suc[of a] by simp
    have e2: "s2 = s1" using True by (simp add: s2_def)
    have e3: "s3 = [?E ?ta (?tb + 1 / 2) False]"
      unfolding s3_def e2 s1_def
      using sighting_extend[OF assms(1,2), of b "?ta + 1 / 2" U ?ta] tb
      by (simp add: frameInterval_def)
    have e4: "close_open n s4 = [?E ?ta (?tb + 1 / 2) (b < n)]"
    proof (cases "b < n")
      case True
      have "s4 = map (\<lambda>t. if t_closed t then t else t\<lparr> t_end := timestamp_of (Suc b), t_closed := True \<rparr>) s3"
        unfolding s4_def using True tb by (intro empties_close) (simp_all add: e3 timestamp_of_Suc)
      then show ?thesis using True by (simp add: e3 close_open_def timestamp_of_Suc)
    next
      case False
      then have "n = b" using assms(5) by simp
      then show ?thesis by (simp add: s4_def e3 close_open_def timestamp_of_def)
    qed
    show ?thesis using True e4 all by simp
  next
    case False
    then have lt: "Suc a < b" using assms(4) by simp
    have e2: "s2 = [?E ?ta (?ta + 1 / 2) True]"
    proof -
      have "s2 = map (\<lambda>t. if t_closed t then t else t\<lparr> t_end := timestamp_of (Suc a), t_closed := True \<rparr>) s1"
        unfolding s2_def using lt by (intro empties_close) (simp_all add: s1_def timestamp_of_Suc)
      then show ?thesis by (simp add: s1_def timestamp_of_Suc)
    qed
    have e3: "s3 = [?E ?ta (?ta + 1 / 2) True, ?E ?tb (?tb + 1 / 2) False]"
      unfolding s3_def e2
      using sighting_new[OF assms(1,2), of "[?E ?ta (?ta + 1 / 2) True]" U b]
      by (simp add: new_text_def frameInterval_def)
    have ab: "?ta < ?tb" using assms(4) by (rule timestamp_of_less)
    have e4: "close_open n s4 = [?E ?ta (?ta + 1 / 2) True, ?E ?tb (?tb + 1 / 2) (b < n)]"
    proof (cases "b < n")
      case True
      have "s4 = map (\<lambda>t. if t_closed t then t else t\<lparr> t_end := timestamp_of (Suc b), t_closed := True \<rparr>) s3"
        unfolding s4_def using True ab by (intro empties_close) (simp_all add: e3 timestamp_of_Suc)
      then show ?thesis using True by (simp add: e3 close_open_def timestamp_of_Suc)
    next
      case False
      then have "n = b" using assms(5) by simp
      then show ?thesis by (simp add: s4_def e3 close_open_def timestamp_of_def)
    qed
    show ?thesis using False e4 all by simp
  qed
qed

lemma timestamp_of_alt: "timestamp_of i = real i / 2 - 1 / 2"
  by (simp add: timestamp_of_def field_simps)

lemma keep_short:
  assumes "\<not> not_an_overlay U (t_text t)" "t_end t - t_start t \<le> 1" "3 \<le> n"
  shows "keep_text U n t"
proof -
  have "(3::real) \<le> real n" using assms(3) by simp
  then have "1 \<le> real n * (1 / 2) * (7 / 10)" by simp
  then show ?thesis using assms(1,2) by (simp add: keep_text_def Let_def)
qed

text \<open>
  What the builder returns for two sightings of a text that the filter keeps, among at
  least three frames that were all analysed.
\<close>

lemma two_sightings_result:
  assumes "normalizedText s = s" "s \<noteq> []" "\<not> not_an_overlay U s"
    and "1 \<le> a" "a < b" "b \<le> n" "3 \<le> n"
  shows "map extent (analyze_texts U (two_sightings s a b n)) =
     (if b \<le> a + 2
      then [(s, timestamp_of a, timestamp_of b + frameInterval)]
      else [(s, timestamp_of a, timestamp_of a + frameInterval),
            (s, timestamp_of b, timestamp_of b + frameInterval)])"
proof -
  let ?E = "\<lambda>x y c. \<lparr>t_text = s, t_start = x, t_end = y, t_closed = c\<rparr>"
  let ?ta = "timestamp_of a" and ?tb = "timestamp_of b"
  let ?frames = "two_sightings s a b n"
  have n: "0 < n" using assms(7) by simp
  have ne: "?frames \<noteq> []" and len: "length ?frames = n"
    using n by (simp_all add: two_sightings_def)
  have "last ?frames = (n, if n = a \<or> n = b then sighting s else Parsed [])"
    using n by (simp add: two_sightings_def last_map)
  then have lastf: "fst (last ?frames) = n" by simp
  have out: "analyze_texts U ?frames =
      merge_texts U [] (sort_key t_start (filter (keep_text U n)
        (close_open n (foldl (analyze_frame U) [] ?frames))))"
    using ne by (simp add: analyze_texts_def Let_def lastf len)
  note texts = two_sightings_texts[OF assms(1,2,4,5,6), of U]
  show ?thesis
  proof (cases "Suc a = b")
    case True
    then have tb: "?tb = ?ta + 1 / 2" using timestamp_of_Suc[of a] by simp
    let ?x = "?E ?ta (?tb + 1 / 2) (b < n)"
    have k: "keep_text U n ?x" using assms(3,7) tb by (intro keep_short) simp_all
    have "analyze_texts U ?frames = [?x]"
      unfolding out texts using True k by simp
    then show ?thesis using True by (simp add: extent_def frameInterval_def)
  next
    case False
    then have lt: "Suc a < b" using assms(5) by simp
    then have "real a + 2 \<le> real b" by linarith
    then have far: "?ta + 1 \<le> ?tb" unfolding timestamp_of_alt by linarith
    let ?x = "?E ?ta (?ta + 1 / 2) True"
    let ?y = "?E ?tb (?tb + 1 / 2) (b < n)"
    have kx: "keep_text U n ?x" using assms(3,7) by (intro keep_short) simp_all
    have ky: "keep_text U n ?y" using assms(3,7) by (intro keep_short) simp_all
    have sorted: "sort_key t_start [?x, ?y] = [?x, ?y]"
      using far by (intro sort_key_id_if_sorted) simp
    have pre: "analyze_texts U ?frames = merge_texts U [] [?x, ?y]"
      unfolding out texts using False kx ky sorted by simp
    show ?thesis
    proof (cases "b \<le> a + 2")
      case True
      then have "b = a + 2" using lt by simp
      then have "real b = real a + 2" by simp
      then have tb: "?tb = ?ta + 1" unfolding timestamp_of_alt by linarith
      have m: "mergeable U ?y ?x" using tb by (simp add: mergeable_def Let_def)
      have "merge_texts U [] [?x, ?y] = [?E ?ta (?tb + 1 / 2) True]"
        using m tb by (simp add: Let_def)
      then show ?thesis using True pre by (simp add: extent_def frameInterval_def)
    next
      case False
      then have "real a + 3 \<le> real b" by linarith
      then have "?ta + 3 / 2 \<le> ?tb" unfolding timestamp_of_alt by linarith
      then have m: "\<not> mergeable U ?y ?x" by (simp add: mergeable_def Let_def)
      have "merge_texts U [] [?x, ?y] = [?x, ?y]"
        using m by simp
      then show ?thesis using False pre by (simp add: extent_def frameInterval_def)
    qed
  qed
qed

subsection \<open>The scenario\<close>

lemma SALE_normal: "normalizedText SALE = SALE" and SALE_text: "SALE \<noteq> []"
  by (simp_all add: SALE_def cps_def normalizedText_def remove_range_def in_range_def trim_def isWhiteSpace_def)

lemma SALE_kept: "\<not> not_an_overlay ascii SALE"
  by (simp add: not_an_overlay_def SALE_def cps_def ascii_def ascii_fold_def trim_def isWhiteSpace_def
      BRAND_FILTER_def SIZE_FILTER_def re_noriks_size_def re_size_noriks_def re_brand_slogan_def
      starts_slogan_word_def is_digit_def is_az_def is_x_def utf16_length_def Let_def)

text \<open>
  The entries of the scenario, frame by frame: opened at 0 s, extended at 0.5 s, closed
  at 1 s by the first frame without the text, and a second entry opened at 2.5 s, which
  the end of the sampling closes at 3 s.
\<close>

lemma scenario_texts:
  "analyze_texts ascii scenario_frames =
     [\<lparr>t_text = SALE, t_start = 0, t_end = 1, t_closed = True\<rparr>,
      \<lparr>t_text = SALE, t_start = 5 / 2, t_end = 3, t_closed = False\<rparr>]"
proof -
  let ?E = "\<lambda>x y c. \<lparr>t_text = SALE, t_start = x, t_end = y, t_closed = c\<rparr>"
  have s1: "analyze_frame ascii [] (1, sighting SALE) = [?E 0 (1 / 2) False]"
    using sighting_new[OF SALE_normal SALE_text, of "[]" ascii 1]
    by (simp add: new_text_def timestamp_of_def frameInterval_def)
  have s2: "analyze_frame ascii [?E 0 (1 / 2) False] (2, sighting SALE) = [?E 0 1 False]"
    using sighting_extend[OF SALE_normal SALE_text, of 2 "1 / 2" ascii 0]
    by (simp add: timestamp_of_def frameInterval_def)
  have s3: "analyze_frame ascii [?E 0 1 False] (3, Parsed []) = [?E 0 1 True]"
    by (simp add: nothing_seen timestamp_of_def)
  have s4: "analyze_frame ascii [?E 0 1 True] (4, Parsed []) = [?E 0 1 True]"
    by (simp add: nothing_seen)
  have s5: "analyze_frame ascii [?E 0 1 True] (5, Parsed []) = [?E 0 1 True]"
    by (simp add: nothing_seen)
  have s6: "analyze_frame ascii [?E 0 1 True] (6, sighting SALE) = [?E 0 1 True, ?E (5 / 2) 3 False]"
    using sighting_new[OF SALE_normal SALE_text, of "[?E 0 1 True]" ascii 6]
    by (simp add: new_text_def timestamp_of_def frameInterval_def)
  have frames: "foldl (analyze_frame ascii) [] scenario_frames = [?E 0 1 True, ?E (5 / 2) 3 False]"
    by (simp only: scenario_frames_def foldl.simps s1 s2 s3 s4 s5 s6)
  have closed: "close_open 6 [?E 0 1 True, ?E (5 / 2) 3 False] = [?E 0 1 True, ?E (5 / 2) 3 False]"
    by (simp add: close_open_def)
  have k1: "keep_text ascii 6 (?E 0 1 True)" and k2: "keep_text ascii 6 (?E (5 / 2) 3 False)"
    using SALE_kept by (simp_all add: keep_text_def Let_def)
  have sorted: "sort_key t_start [?E 0 1 True, ?E (5 / 2) 3 False] = [?E 0 1 True, ?E (5 / 2) 3 False]"
    by (intro sort_key_id_if_sorted) simp
  have merged: "merge_texts ascii [] [?E 0 1 True, ?E (5 / 2) 3 False] = [?E 0 1 True, ?E (5 / 2) 3 False]"
    by (simp add: mergeable_def Let_def)
  have l: "fst (last scenario_frames) = 6" "length scenario_frames = 6" "scenario_frames \<noteq> []"
    by (simp_all add: scenario_frames_def)
  have kept: "filter (keep_text ascii 6) [?E 0 1 True, ?E (5 / 2) 3 False] = [?E 0 1 True, ?E (5 / 2) 3 False]"
    using k1 k2 by simp
  have out: "analyze_texts ascii scenario_frames =
      merge_texts ascii [] (sort_key t_start (filter (keep_text ascii 6)
        (close_open 6 (foldl (analyze_frame ascii) [] scenario_frames))))"
    using l by (simp add: analyze_texts_def Let_def)
  show ?thesis
    unfolding out frames closed kept sorted merged ..
qed

subsection \<open>The claims\<close>

text \<open>
  Claim C1, as the code runs it. Take a text that normalization leaves as it is and the
  filter keeps, seen in the frames \<open>a\<close> and \<open>b\<close> of at least three frames that are all
  analysed and show nothing else: at the timestamps \<open>t\<close> and \<open>t + g\<close> with
  \<open>g = (b - a) / 2\<close>. The two sightings end in one entry, from \<open>t\<close> to
  \<open>t + g + 0.5\<close>, exactly when \<open>g\<close> is at most two frame intervals, 1 s: next to each
  other the open entry is extended, one empty frame apart the final merge unites the
  two entries. Further apart they give two entries, the first from \<open>t\<close> to \<open>t + 0.5\<close>,
  the second starting at the second sighting. The scenario gives the two entries
  0 s to 1 s and 2.5 s to 3 s.
\<close>

theorem segment_merge_contract:
  "(normalizedText s = s \<and> s \<noteq> [] \<and> \<not> not_an_overlay U s \<and> 1 \<le> a \<and> a < b \<and> b \<le> n \<and> 3 \<le> n \<longrightarrow>
      map extent (analyze_texts U (two_sightings s a b n)) =
        (if b \<le> a + 2
         then [(s, timestamp_of a, timestamp_of b + frameInterval)]
         else [(s, timestamp_of a, timestamp_of a + frameInterval),
               (s, timestamp_of b, timestamp_of b + frameInterval)]))
   \<and> map extent (analyze_texts ascii scenario_frames) = [(SALE, 0, 1), (SALE, 5 / 2, 3)]"
  using two_sightings_result[of s U a b n] by (simp add: scenario_texts extent_def)

text \<open>
  The theorem on eight frames: sightings at 0 s and 0.5 s and sightings at 0 s and 1 s
  give one entry, sightings at 0 s and 2.5 s give two.
\<close>

theorem segment_merge_contract_witness:
  "normalizedText SALE = SALE \<and> SALE \<noteq> [] \<and> \<not> not_an_overlay ascii SALE
   \<and> map extent (analyze_texts ascii (two_sightings SALE 1 2 8)) = [(SALE, 0, 1)]
   \<and> map extent (analyze_texts ascii (two_sightings SALE 1 3 8)) = [(SALE, 0, 3 / 2)]
   \<and> map extent (analyze_texts ascii (two_sightings SALE 1 6 8)) = [(SALE, 0, 1 / 2), (SALE, 5 / 2, 3)]"
  using SALE_normal SALE_text SALE_kept
    segment_merge_contract [of SALE ascii 1 2 8]
    segment_merge_contract [of SALE ascii 1 3 8]
    segment_merge_contract [of SALE ascii 1 6 8]
  by (simp add: timestamp_of_def frameInterval_def)

text \<open>
  Sightings at 0 s and 1 s, a gap of two frame intervals with an analysed empty frame
  between, end in one entry; and of two sightings at 0 s and 2.5 s the first entry ends
  at 0.5 s, after the first sighting's timestamp.
\<close>

theorem segment_merge_contract_counterexample:
  "two_sightings SALE 1 3 8 =
     [(1, sighting SALE), (2, Parsed []), (3, sighting SALE), (4, Parsed []), (5, Parsed []),
      (6, Parsed []), (7, Parsed []), (8, Parsed [])]
   \<and> timestamp_of 1 = 0 \<and> timestamp_of 3 = 1 \<and> frameInterval < 1
   \<and> map extent (analyze_texts ascii (two_sightings SALE 1 3 8)) = [(SALE, 0, 3 / 2)]
   \<and> map extent (analyze_texts ascii (two_sightings SALE 1 6 8)) = [(SALE, 0, 1 / 2), (SALE, 5 / 2, 3)]
   \<and> \<not> (1 / 2 \<le> timestamp_of 1)"
proof -
  have frames: "two_sightings SALE 1 3 8 =
     [(1, sighting SALE), (2, Parsed []), (3, sighting SALE), (4, Parsed []), (5, Parsed []),
      (6, Parsed []), (7, Parsed []), (8, Parsed [])]"
    by (simp add: two_sightings_def upt_rec)
  have near: "map extent (analyze_texts ascii (two_sightings SALE 1 3 8)) = [(SALE, 0, 3 / 2)]"
    using two_sightings_result[OF SALE_normal SALE_text SALE_kept, of 1 3 8]
    by (simp add: timestamp_of_def frameInterval_def)
  have far: "map extent (analyze_texts ascii (two_sightings SALE 1 6 8)) = [(SALE, 0, 1 / 2), (SALE, 5 / 2, 3)]"
    using two_sightings_result[OF SALE_normal SALE_text SALE_kept, of 1 6 8]
    by (simp add: timestamp_of_def frameInterval_def)
  show ?thesis
    using frames near far by (simp add: timestamp_of_def frameInterval_def)
qed




text \<open>
  Claim C6. The frames come in the order of their sorted file names, that is, of their
  numbers. Every entry of the response ends after it starts and not later than one frame
  interval after the timestamp of the last frame.
\<close>

theorem closing_contract:
  "sorted (map fst frames) \<Longrightarrow> t \<in> set (analyze_texts U frames) \<Longrightarrow>
     t_start t \<le> t_end t \<and> t_start t < t_end t
     \<and> t_end t \<le> timestamp_of (fst (last frames)) + frameInterval"
proof -
  assume s: "sorted (map fst frames)" and t: "t \<in> set (analyze_texts U frames)"
  then have ne: "frames \<noteq> []" by (auto simp: analyze_texts_def)
  let ?limit = "timestamp_of (fst (last frames)) + frameInterval"
  have "timed (timestamp_of (fst (hd frames))) []" by (simp add: timed_def)
  from timed_foldl[OF ne s this order_refl]
  have "timed (timestamp_of (fst (last frames))) (foldl (analyze_frame U) [] frames)" .
  then have "bounded ?limit (close_open (fst (last frames)) (foldl (analyze_frame U) [] frames))"
    by (rule bounded_close_open)
  then have "bounded ?limit (sort_key t_start (filter (keep_text U (length frames))
      (close_open (fst (last frames)) (foldl (analyze_frame U) [] frames))))"
    by (auto simp: bounded_def)
  then have "bounded ?limit (merge_texts U [] (sort_key t_start (filter (keep_text U (length frames))
      (close_open (fst (last frames)) (foldl (analyze_frame U) [] frames)))))"
    by (intro bounded_merge_texts) (simp_all add: bounded_def)
  then have "bounded ?limit (analyze_texts U frames)" using ne by (simp add: analyze_texts_def Let_def)
  then show ?thesis using t by (auto simp: bounded_def)
qed

text \<open>The theorem on the second entry of the scenario, which ends with the sampling at 3 s.\<close>

theorem closing_contract_witness:
  "sorted (map fst scenario_frames)
   \<and> \<lparr>t_text = SALE, t_start = 5 / 2, t_end = 3, t_closed = False\<rparr> \<in> set (analyze_texts ascii scenario_frames)
   \<and> (5 / 2 :: real) < 3
   \<and> (3 :: real) \<le> timestamp_of (fst (last scenario_frames)) + frameInterval"
proof -
  have s: "sorted (map fst scenario_frames)"
    by (simp add: scenario_frames_def)
  have m: "\<lparr>t_text = SALE, t_start = 5 / 2, t_end = 3, t_closed = False\<rparr> \<in> set (analyze_texts ascii scenario_frames)"
    by (simp add: scenario_texts)
  show ?thesis
    using s m closing_contract [OF s m] by simp
qed

end
